theory Spec2Isabelle
  imports Main "HOL-Library.Product_Lexorder" "HOL-Library.Sublist"
begin

section \<open>The program: \<^verbatim>\<open>convex_hull.py\<close>\<close>

subsection \<open>Data model\<close>

text \<open>
  \<^verbatim>\<open>class Point\<close> has two attributes, \<^verbatim>\<open>x\<close> and \<^verbatim>\<open>y\<close>, set once by
  \<^verbatim>\<open>__init__\<close>. Coordinates are Python integers (unbounded), hence \<^typ>\<open>int\<close>;
  floating-point coordinates are outside this model.
\<close>

record Point =
  x :: int
  y :: int

text \<open>
  The pair \<^verbatim>\<open>(p.x, p.y)\<close>: the element of the set comprehension in line 26 and the
  sort key of line 35. Python compares tuples lexicographically, which is the order of
  \<^typ>\<open>int \<times> int\<close> here.
\<close>

definition key :: "Point \<Rightarrow> int \<times> int" where
  "key p = (x p, y p)"

text \<open>
  Instances of \<^verbatim>\<open>Point\<close> are heap objects. The class defines \<^verbatim>\<open>__init__\<close> and
  \<^verbatim>\<open>__repr__\<close> only, so \<^verbatim>\<open>==\<close> is inherited from \<^verbatim>\<open>object\<close> and compares
  identities, and \<^verbatim>\<open><\<close> is not supported and raises \<^verbatim>\<open>TypeError\<close>. A reference is
  an address; the heap maps the addresses in use to the attribute values stored there.
\<close>

type_synonym ref = nat

type_synonym heap = "ref \<rightharpoonup> Point"

datatype error = TypeError

definition Point_eq :: "heap \<Rightarrow> ref \<Rightarrow> ref \<Rightarrow> bool" where
  "Point_eq h p q = (p = q)"

definition Point_lt :: "heap \<Rightarrow> ref \<Rightarrow> ref \<Rightarrow> error + bool" where
  "Point_lt h p q = Inl TypeError"

subsection \<open>The turn test\<close>

definition direction :: "Point \<Rightarrow> Point \<Rightarrow> Point \<Rightarrow> int" where
  "direction a b c = (x b - x a) * (y c - y a) - (y b - y a) * (x c - x a)"

subsection \<open>The hull builder\<close>

text \<open>
  The inner \<^verbatim>\<open>while\<close> loop of lines 44-45 (and 51-52): \<^verbatim>\<open>lower[-2]\<close> and
  \<^verbatim>\<open>lower[-1]\<close> are the last two elements, \<^verbatim>\<open>lower.pop()\<close> drops the last one.
\<close>

fun pop_while :: "Point list \<Rightarrow> Point \<Rightarrow> Point list" where
  "pop_while lower p =
     (if 2 \<le> length lower
         \<and> direction (lower ! (length lower - 2)) (lower ! (length lower - 1)) p \<le> 0
      then pop_while (butlast lower) p
      else lower)"

declare pop_while.simps [simp del]

text \<open>The \<^verbatim>\<open>for\<close> loop of lines 38-46 (and 49-53), started on the empty list.\<close>

definition sweep :: "Point list \<Rightarrow> Point list" where
  "sweep pts = foldl (\<lambda>lower p. pop_while lower p @ [p]) [] pts"

text \<open>
  Lines 27-58, given the elements of the set \<^verbatim>\<open>uniq\<close> in the order in which the
  comprehension of line 27 iterates over it. Python leaves that order unspecified; it
  is a parameter here, and \<open>convex_hull_of_enumeration\<close> below shows that the result does
  not depend on it.
\<close>

definition convex_hull_of :: "(int \<times> int) list \<Rightarrow> Point list" where
  "convex_hull_of uniq =
     (let pts = map (\<lambda>(a, b). \<lparr>x = a, y = b\<rparr>) uniq in
      if length pts \<le> 1 then pts
      else
        let pts = sort_key key pts;
            lower = sweep pts;
            upper = sweep (rev pts)
        in butlast lower @ butlast upper)"

text \<open>Line 26 builds the set of coordinate pairs; duplicates collapse.\<close>

definition convex_hull :: "Point list \<Rightarrow> Point list" where
  "convex_hull points = convex_hull_of (remdups (map key points))"

text \<open>The sample points of the demonstration in lines 67-71.\<close>

definition data :: "Point list" where
  "data = [\<lparr>x = 0, y = 0\<rparr>, \<lparr>x = 2, y = 0\<rparr>, \<lparr>x = 2, y = 2\<rparr>, \<lparr>x = 0, y = 2\<rparr>,
           \<lparr>x = 1, y = 1\<rparr>, \<lparr>x = 1, y = 2\<rparr>, \<lparr>x = 0, y = 1\<rparr>, \<lparr>x = 2, y = 1\<rparr>,
           \<lparr>x = 2, y = 2\<rparr>, \<lparr>x = 0, y = 0\<rparr>]"

subsection \<open>Notions used to state the properties\<close>

text \<open>The directed edges of a closed polygon: each vertex paired with its cyclic successor.\<close>

definition edges :: "Point list \<Rightarrow> (Point \<times> Point) list" where
  "edges h = zip h (rotate1 h)"

text \<open>The closed segment from \<open>a\<close> to \<open>b\<close>: collinear with both and inside their bounding box.\<close>

definition on_segment :: "Point \<Rightarrow> Point \<Rightarrow> Point \<Rightarrow> bool" where
  "on_segment a b q \<longleftrightarrow>
     direction a b q = 0
     \<and> min (x a) (x b) \<le> x q \<and> x q \<le> max (x a) (x b)
     \<and> min (y a) (y b) \<le> y q \<and> y q \<le> max (y a) (y b)"

text \<open>
  A point lies on or inside the polygon given by a vertex sequence: for one vertex it is
  that vertex, for two it lies on the segment, for more it is on or to the left of every
  directed edge (the polygon being convex and counter-clockwise).
\<close>

fun on_or_inside :: "Point list \<Rightarrow> Point \<Rightarrow> bool" where
  "on_or_inside [] q = False"
| "on_or_inside [a] q = (q = a)"
| "on_or_inside [a, b] q = on_segment a b q"
| "on_or_inside h q = list_all (\<lambda>(a, b). 0 \<le> direction a b q) (edges h)"

text \<open>
  Independently of any orientation: a point lies on or inside the polygon when it is a convex
  combination of the vertices. The weights are integers, not all zero; dividing by their
  sum gives the usual weights that add up to one.
\<close>

definition convex_combination :: "Point list \<Rightarrow> Point \<Rightarrow> bool" where
  "convex_combination h q \<longleftrightarrow>
     (\<exists>w. (\<forall>v. 0 \<le> w v) \<and> 0 < (\<Sum>v\<leftarrow>h. w v)
        \<and> (\<Sum>v\<leftarrow>h. w v) * x q = (\<Sum>v\<leftarrow>h. w v * x v)
        \<and> (\<Sum>v\<leftarrow>h. w v) * y q = (\<Sum>v\<leftarrow>h. w v * y v))"

text \<open>Twice the signed area of the polygon (shoelace formula); positive when counter-clockwise.\<close>

definition area2 :: "Point list \<Rightarrow> int" where
  "area2 h = (\<Sum>(a, b)\<leftarrow>edges h. x a * y b - x b * y a)"

text \<open>The left normal of the vector \<open>(u1, u2)\<close> is \<open>(- u2, u1)\<close>: the vector turned by +90 degrees.\<close>

definition left_of :: "Point \<Rightarrow> Point \<Rightarrow> Point \<Rightarrow> int" where
  "left_of a b c = (- (y b - y a)) * (x c - x a) + (x b - x a) * (y c - y a)"

text \<open>Three points are collinear when the vectors from the first to the others are linearly dependent.\<close>

definition collinear3 :: "Point \<Rightarrow> Point \<Rightarrow> Point \<Rightarrow> bool" where
  "collinear3 a b c \<longleftrightarrow>
     (\<exists>s t. \<not> (s = 0 \<and> t = 0)
        \<and> s * (x b - x a) = t * (x c - x a) \<and> s * (y b - y a) = t * (y c - y a))"

subsection \<open>Notions used in the proofs\<close>

text \<open>The cross product of the vectors \<open>a \<rightarrow> b\<close> and \<open>c \<rightarrow> d\<close>.\<close>

definition edge_cross :: "Point \<Rightarrow> Point \<Rightarrow> Point \<Rightarrow> Point \<Rightarrow> int" where
  "edge_cross a b c d = (x b - x a) * (y d - y c) - (y b - y a) * (x d - x c)"

text \<open>The sweep order: ascending by key for the lower chain, descending for the upper one.\<close>

definition before :: "bool \<Rightarrow> Point \<Rightarrow> Point \<Rightarrow> bool" where
  "before asc a b = (if asc then key a < key b else key b < key a)"

text \<open>The consecutive pairs of a chain (not closed).\<close>

definition edges_of :: "Point list \<Rightarrow> (Point \<times> Point) list" where
  "edges_of c = zip c (tl c)"

text \<open>Every three consecutive points of a chain make a strict left turn.\<close>

fun turns :: "Point list \<Rightarrow> bool" where
  "turns (a # b # c # r) = (0 < direction a b c \<and> turns (b # c # r))"
| "turns r = True"

text \<open>
  A point is covered by a chain when it is a vertex of it, or lies strictly between the
  ends of one of its edges in the sweep order and on or to the left of that edge.
\<close>

definition covered :: "bool \<Rightarrow> Point list \<Rightarrow> Point \<Rightarrow> bool" where
  "covered asc c q \<longleftrightarrow>
     q \<in> set c
     \<or> (\<exists>(a, b) \<in> set (edges_of c). before asc a q \<and> before asc q b \<and> 0 \<le> direction a b q)"

text \<open>
  The state of the inner loop while \<open>p\<close> is being added: a point is either covered by the
  chain that is left, or lies between its last vertex and \<open>p\<close>, on or to the left of the
  segment that joins them.
\<close>

definition reaches :: "bool \<Rightarrow> Point list \<Rightarrow> Point \<Rightarrow> Point \<Rightarrow> bool" where
  "reaches asc c p q \<longleftrightarrow>
     covered asc c q
     \<or> (c \<noteq> [] \<and> before asc (last c) q \<and> before asc q p \<and> 0 \<le> direction (last c) p q)"

text \<open>The list \<^verbatim>\<open>pts\<close> after the sort of line 35.\<close>

definition sorted_points :: "Point list \<Rightarrow> Point list" where
  "sorted_points points =
     sort_key key (map (\<lambda>(a, b). \<lparr>x = a, y = b\<rparr>) (remdups (map key points)))"

section \<open>Geometry of the sweep\<close>

subsection \<open>Slopes\<close>

lemma slope_trans_raw:
  fixes u1 u2 v1 v2 w1 w2 :: int
  assumes u: "0 < u1 \<or> (u1 = 0 \<and> 0 < u2)"
      and v: "0 < v1 \<or> (v1 = 0 \<and> 0 < v2)"
      and w: "0 < w1 \<or> (w1 = 0 \<and> 0 < w2)"
      and uv: "0 \<le> u1 * v2 - u2 * v1"
      and vw: "0 \<le> v1 * w2 - v2 * w1"
  shows "0 \<le> u1 * w2 - u2 * w1"
    and "0 < u1 * v2 - u2 * v1 \<Longrightarrow> 0 < u1 * w2 - u2 * w1"
    and "0 < v1 * w2 - v2 * w1 \<Longrightarrow> 0 < u1 * w2 - u2 * w1"
proof -
  have id: "(u1 * w2 - u2 * w1) * v1 = (u1 * v2 - u2 * v1) * w1 + (v1 * w2 - v2 * w1) * u1"
    by (simp add: algebra_simps)
  from u have u1: "0 \<le> u1" by auto
  from w have w1: "0 \<le> w1" by auto
  show "0 \<le> u1 * w2 - u2 * w1"
  proof (cases "0 < v1")
    case True
    have "0 \<le> (u1 * v2 - u2 * v1) * w1 + (v1 * w2 - v2 * w1) * u1"
      using uv vw u1 w1 by simp
    with id have "0 \<le> (u1 * w2 - u2 * w1) * v1" by simp
    with True show ?thesis by (simp add: zero_le_mult_iff)
  next
    case False
    with v have v0: "v1 = 0" "0 < v2" by auto
    from vw v0 have "v2 * w1 \<le> 0" by simp
    with v0 w1 have "w1 = 0" by (simp add: mult_le_0_iff)
    with w have w0: "w1 = 0" "0 < w2" by auto
    with u1 show ?thesis by simp
  qed
  show "0 < u1 * w2 - u2 * w1" if s: "0 < u1 * v2 - u2 * v1"
  proof (cases "0 < v1")
    case True
    have "0 < (u1 * v2 - u2 * v1) * w1 + (v1 * w2 - v2 * w1) * u1"
    proof (cases "0 < w1")
      case True
      with s have "0 < (u1 * v2 - u2 * v1) * w1" by simp
      moreover have "0 \<le> (v1 * w2 - v2 * w1) * u1" using vw u1 by simp
      ultimately show ?thesis by simp
    next
      case False
      with w have w0: "w1 = 0" "0 < w2" by auto
      have "0 < u1"
      proof (rule ccontr)
        assume "\<not> 0 < u1"
        with u have "u1 = 0" "0 < u2" by auto
        with s have "0 < - (u2 * v1)" by simp
        then have "u2 * v1 < 0" by simp
        with \<open>0 < u2\<close> \<open>0 < v1\<close> show False by (simp add: mult_less_0_iff)
      qed
      with True w0 show ?thesis by simp
    qed
    with id have "0 < (u1 * w2 - u2 * w1) * v1" by simp
    with True show ?thesis by (simp add: zero_less_mult_iff)
  next
    case False
    with v have v0: "v1 = 0" "0 < v2" by auto
    from vw v0 have "v2 * w1 \<le> 0" by simp
    with v0 w1 have "w1 = 0" by (simp add: mult_le_0_iff)
    with w have w0: "w1 = 0" "0 < w2" by auto
    from s v0 have "0 < u1" by (simp add: zero_less_mult_iff)
    with w0 show ?thesis by simp
  qed
  show "0 < u1 * w2 - u2 * w1" if s: "0 < v1 * w2 - v2 * w1"
  proof (cases "0 < v1")
    case True
    have "0 < (u1 * v2 - u2 * v1) * w1 + (v1 * w2 - v2 * w1) * u1"
    proof (cases "0 < u1")
      case True
      with s have "0 < (v1 * w2 - v2 * w1) * u1" by simp
      moreover have "0 \<le> (u1 * v2 - u2 * v1) * w1" using uv w1 by simp
      ultimately show ?thesis by simp
    next
      case False
      with u have u0: "u1 = 0" "0 < u2" by auto
      with uv have "u2 * v1 \<le> 0" by simp
      with u0 True show ?thesis by (simp add: mult_le_0_iff)
    qed
    with id have "0 < (u1 * w2 - u2 * w1) * v1" by simp
    with True show ?thesis by (simp add: zero_less_mult_iff)
  next
    case False
    with v have v0: "v1 = 0" "0 < v2" by auto
    from s v0 have "0 < - (v2 * w1)" by simp
    then have "v2 * w1 < 0" by simp
    with v0 w1 show ?thesis by (simp add: mult_less_0_iff)
  qed
qed

lemma edge_cross_trans_asc:
  assumes "key a < key b" "key c < key d" "key e < key f"
      and "0 \<le> edge_cross a b c d" "0 \<le> edge_cross c d e f"
  shows "0 \<le> edge_cross a b e f"
    and "0 < edge_cross a b c d \<Longrightarrow> 0 < edge_cross a b e f"
    and "0 < edge_cross c d e f \<Longrightarrow> 0 < edge_cross a b e f"
proof -
  have u: "0 < x b - x a \<or> (x b - x a = 0 \<and> 0 < y b - y a)"
    and v: "0 < x d - x c \<or> (x d - x c = 0 \<and> 0 < y d - y c)"
    and w: "0 < x f - x e \<or> (x f - x e = 0 \<and> 0 < y f - y e)"
    using assms(1-3) by (auto simp: key_def)
  have uv: "0 \<le> (x b - x a) * (y d - y c) - (y b - y a) * (x d - x c)"
    and vw: "0 \<le> (x d - x c) * (y f - y e) - (y d - y c) * (x f - x e)"
    using assms(4,5) by (simp_all add: edge_cross_def)
  note r = slope_trans_raw [OF u v w uv vw]
  show "0 \<le> edge_cross a b e f"
    using r(1) by (simp add: edge_cross_def)
  show "0 < edge_cross a b c d \<Longrightarrow> 0 < edge_cross a b e f"
    using r(2) by (simp add: edge_cross_def)
  show "0 < edge_cross c d e f \<Longrightarrow> 0 < edge_cross a b e f"
    using r(3) by (simp add: edge_cross_def)
qed

lemma edge_cross_flip: "edge_cross b a d c = edge_cross a b c d"
  by (simp add: edge_cross_def algebra_simps)

lemma edge_cross_trans:
  assumes "before asc a b" "before asc c d" "before asc e f"
      and "0 \<le> edge_cross a b c d" "0 \<le> edge_cross c d e f"
  shows "0 \<le> edge_cross a b e f"
    and "0 < edge_cross a b c d \<Longrightarrow> 0 < edge_cross a b e f"
    and "0 < edge_cross c d e f \<Longrightarrow> 0 < edge_cross a b e f"
proof -
  show "0 \<le> edge_cross a b e f"
  proof (cases asc)
    case True
    with assms show ?thesis
      using edge_cross_trans_asc(1) [of a b c d e f] by (simp add: before_def)
  next
    case False
    with assms show ?thesis
      using edge_cross_trans_asc(1) [of b a d c f e] by (simp add: before_def edge_cross_flip)
  qed
  show "0 < edge_cross a b e f" if "0 < edge_cross a b c d"
  proof (cases asc)
    case True
    with assms that show ?thesis
      using edge_cross_trans_asc(2) [of a b c d e f] by (simp add: before_def)
  next
    case False
    with assms that show ?thesis
      using edge_cross_trans_asc(2) [of b a d c f e] by (simp add: before_def edge_cross_flip)
  qed
  show "0 < edge_cross a b e f" if "0 < edge_cross c d e f"
  proof (cases asc)
    case True
    with assms that show ?thesis
      using edge_cross_trans_asc(3) [of a b c d e f] by (simp add: before_def)
  next
    case False
    with assms that show ?thesis
      using edge_cross_trans_asc(3) [of b a d c f e] by (simp add: before_def edge_cross_flip)
  qed
qed

lemma direction_edge_cross:
  "direction a b c = edge_cross a b a c"
  "direction a b c = edge_cross a b b c"
  "direction a b c = edge_cross c a a b"
  "direction a b c = edge_cross c b a b"
  "direction a b c = edge_cross a c b c"
  by (simp_all add: direction_def edge_cross_def algebra_simps)

lemma edge_cross_split:
  "edge_cross a b c e = edge_cross a b c d + edge_cross a b d e"
  "edge_cross a c d e = edge_cross a b d e + edge_cross b c d e"
  by (simp_all add: edge_cross_def algebra_simps)

lemma edge_cross_swap: "edge_cross c d a b = - edge_cross a b c d"
  by (simp add: edge_cross_def algebra_simps)

lemma before_trans: "before asc a b \<Longrightarrow> before asc b c \<Longrightarrow> before asc a c"
  by (auto simp: before_def split: if_splits)

lemma before_irrefl: "\<not> before asc a a"
  by (simp add: before_def)

lemma before_asym: "before asc a b \<Longrightarrow> \<not> before asc b a"
  by (auto simp: before_def split: if_splits)

lemma key_inj: "key a = key b \<longleftrightarrow> a = (b::Point)"
  by (auto simp: key_def)

subsection \<open>The inner loop\<close>

lemma pop_while_short: "length c \<le> 1 \<Longrightarrow> pop_while c p = c"
  by (subst pop_while.simps) simp

lemma pop_while_snoc2:
  "pop_while (l @ [a, b]) p =
     (if direction a b p \<le> 0 then pop_while (l @ [a]) p else l @ [a, b])"
proof -
  have "(l @ [a, b]) ! (length (l @ [a, b]) - 2) = a"
    by (simp add: nth_append)
  moreover have "(l @ [a, b]) ! (length (l @ [a, b]) - 1) = b"
    by (simp add: nth_append)
  moreover have "butlast (l @ [a, b]) = l @ [a]"
    by (simp add: butlast_append)
  ultimately show ?thesis
    by (subst pop_while.simps) simp
qed

lemma two_snoc: "2 \<le> length c \<Longrightarrow> \<exists>l a b. c = l @ [a, b]"
proof (induction c rule: rev_induct)
  case Nil
  then show ?case by simp
next
  case (snoc b c)
  then have "c \<noteq> []" by auto
  then obtain l a where "c = l @ [a]" by (metis rev_exhaust)
  then show ?case by simp
qed

lemma pop_while_cases [case_names keep pop]:
  assumes "pop_while c p = c \<Longrightarrow> (length c \<le> 1 \<or> (\<exists>l a b. c = l @ [a, b] \<and> 0 < direction a b p)) \<Longrightarrow> R"
      and "\<And>l a b. c = l @ [a, b] \<Longrightarrow> direction a b p \<le> 0 \<Longrightarrow> pop_while c p = pop_while (l @ [a]) p \<Longrightarrow> R"
  shows R
proof (cases "2 \<le> length c")
  case False
  then have "length c \<le> 1" by simp
  with assms(1) pop_while_short show ?thesis by blast
next
  case True
  then obtain l a b where c: "c = l @ [a, b]" using two_snoc by blast
  show ?thesis
  proof (cases "direction a b p \<le> 0")
    case True
    with c assms(2) show ?thesis by (simp add: pop_while_snoc2)
  next
    case False
    with c have "pop_while c p = c" by (simp add: pop_while_snoc2)
    moreover from c False have "\<exists>l a b. c = l @ [a, b] \<and> 0 < direction a b p" by auto
    ultimately show ?thesis using assms(1) by blast
  qed
qed

lemma pop_while_induct [case_names keep pop]:
  assumes keep: "\<And>c. pop_while c p = c \<Longrightarrow>
            (length c \<le> 1 \<or> (\<exists>l a b. c = l @ [a, b] \<and> 0 < direction a b p)) \<Longrightarrow> R c"
      and pop: "\<And>l a b. direction a b p \<le> 0 \<Longrightarrow> R (l @ [a]) \<Longrightarrow> R (l @ [a, b])"
  shows "R c"
proof (induction c rule: length_induct)
  case (1 c)
  show ?case
  proof (cases c p rule: pop_while_cases)
    case keep
    then show ?thesis using assms(1) by blast
  next
    case (pop l a b)
    then have "length (l @ [a]) < length c" by simp
    with 1 have "R (l @ [a])" by blast
    with pop assms(2) show ?thesis by simp
  qed
qed

lemma pop_while_prefix: "prefix (pop_while c p) c"
proof (induction c rule: pop_while_induct [where p = p])
  case (keep c)
  then show ?case by simp
next
  case (pop l a b)
  then have "prefix (pop_while (l @ [a, b]) p) (l @ [a])"
    by (simp add: pop_while_snoc2)
  moreover have "prefix (l @ [a]) (l @ [a, b])" by simp
  ultimately show ?case using prefix_order.trans by blast
qed

lemma pop_while_nonempty: "c \<noteq> [] \<Longrightarrow> pop_while c p \<noteq> []"
proof (induction c rule: pop_while_induct [where p = p])
  case (keep c)
  then show ?case by simp
next
  case (pop l a b)
  then show ?case by (simp add: pop_while_snoc2)
qed

lemma pop_while_hd: "c \<noteq> [] \<Longrightarrow> hd (pop_while c p) = hd c"
proof -
  assume c: "c \<noteq> []"
  from pop_while_prefix obtain r where "c = pop_while c p @ r"
    by (auto simp: prefix_def)
  with pop_while_nonempty [OF c, of p] show ?thesis
    by (metis hd_append2)
qed

lemma pop_while_turn: "pop_while c p = l @ [a, b] \<Longrightarrow> 0 < direction a b p"
proof (induction c rule: pop_while_induct [where p = p])
  case (keep c)
  then show ?case by auto
next
  case (pop l' a' b')
  then show ?case by (simp add: pop_while_snoc2)
qed

subsection \<open>Chains\<close>

lemma turns_prefix: "turns (xs @ ys) \<Longrightarrow> turns xs"
proof (induction xs rule: turns.induct)
  case (1 a b c r)
  then show ?case by simp
qed simp_all

lemma turns_suffix: "turns (xs @ ys) \<Longrightarrow> turns ys"
proof (induction xs)
  case Nil
  then show ?case by simp
next
  case (Cons a xs)
  have "turns (xs @ ys)"
  proof (cases "xs @ ys")
    case Nil
    then show ?thesis by simp
  next
    case (Cons b r)
    note br = this
    show ?thesis
    proof (cases r)
      case Nil
      with br show ?thesis by simp
    next
      case (Cons c r')
      with br Cons.prems show ?thesis by simp
    qed
  qed
  with Cons.IH show ?case .
qed

lemma turns_mid: "turns (pre @ a # b # c # post) \<Longrightarrow> 0 < direction a b c"
  using turns_suffix [of pre "a # b # c # post"] by simp

lemma turns_snoc: "turns (l @ [a, b]) \<Longrightarrow> 0 < direction a b p \<Longrightarrow> turns (l @ [a, b, p])"
  by (induction l rule: turns.induct) simp_all

lemma turns_push: "turns c \<Longrightarrow> turns (pop_while c p @ [p])"
proof -
  assume t: "turns c"
  from pop_while_prefix obtain r where "c = pop_while c p @ r"
    by (auto simp: prefix_def)
  with t have tp: "turns (pop_while c p)" using turns_prefix by metis
  show ?thesis
  proof (cases "2 \<le> length (pop_while c p)")
    case True
    then obtain l a b where e: "pop_while c p = l @ [a, b]" using two_snoc by blast
    with pop_while_turn have "0 < direction a b p" by blast
    with tp e show ?thesis using turns_snoc by simp
  next
    case False
    then consider "pop_while c p = []" | u where "pop_while c p = [u]"
      by (cases "pop_while c p") (auto simp: Suc_le_eq)
    then show ?thesis by cases simp_all
  qed
qed

lemma edges_of_simps [simp]:
  "edges_of [] = []" "edges_of [a] = []" "edges_of (a # b # r) = (a, b) # edges_of (b # r)"
  by (simp_all add: edges_of_def)

lemma edges_of_append: "edges_of (xs @ u # ys) = edges_of (xs @ [u]) @ edges_of (u # ys)"
proof (induction xs)
  case Nil
  then show ?case by simp
next
  case (Cons a xs)
  then show ?case by (cases xs) simp_all
qed

lemma edges_of_snoc: "c \<noteq> [] \<Longrightarrow> edges_of (c @ [p]) = edges_of c @ [(last c, p)]"
proof -
  assume "c \<noteq> []"
  then obtain l a where c: "c = l @ [a]" by (metis rev_exhaust)
  have "edges_of (l @ a # [p]) = edges_of (l @ [a]) @ edges_of (a # [p])"
    by (rule edges_of_append)
  with c show ?thesis by simp
qed

lemma edges_of_split: "(a, b) \<in> set (edges_of c) \<longleftrightarrow> (\<exists>pre post. c = pre @ a # b # post)"
proof
  show "(a, b) \<in> set (edges_of c) \<Longrightarrow> \<exists>pre post. c = pre @ a # b # post"
  proof (induction c)
    case Nil
    then show ?case by simp
  next
    case (Cons u c)
    show ?case
    proof (cases c)
      case Nil
      with Cons.prems show ?thesis by simp
    next
      case (Cons v r)
      show ?thesis
      proof (cases "(a, b) = (u, v)")
        case True
        with Cons have "u # c = [] @ a # b # r" by simp
        then show ?thesis by blast
      next
        case False
        with Cons Cons.prems have "(a, b) \<in> set (edges_of c)" by auto
        with Cons.IH obtain pre post where "c = pre @ a # b # post" by blast
        then have "u # c = (u # pre) @ a # b # post" by simp
        then show ?thesis by blast
      qed
    qed
  qed
next
  assume "\<exists>pre post. c = pre @ a # b # post"
  then obtain pre post where "c = pre @ a # b # post" by blast
  then have "edges_of c = edges_of (pre @ [a]) @ (a, b) # edges_of (b # post)"
    using edges_of_append [of pre a "b # post"] by simp
  then show "(a, b) \<in> set (edges_of c)" by simp
qed

lemma edges_of_set: "(a, b) \<in> set (edges_of c) \<Longrightarrow> a \<in> set c \<and> b \<in> set c"
  by (auto simp: edges_of_split)

subsection \<open>One pass of the outer loop\<close>

lemma sweep_Nil [simp]: "sweep [] = []"
  by (simp add: sweep_def)

lemma sweep_snoc: "sweep (ps @ [p]) = pop_while (sweep ps) p @ [p]"
  by (simp add: sweep_def)

lemma sweep_single [simp]: "sweep [p] = [p]"
  using sweep_snoc [of "[]" p] by (simp add: pop_while_short)

lemma sweep_set: "set (sweep ps) \<subseteq> set ps"
proof (induction ps rule: rev_induct)
  case Nil
  then show ?case by simp
next
  case (snoc p ps)
  have "set (pop_while (sweep ps) p) \<subseteq> set (sweep ps)"
    using pop_while_prefix set_mono_prefix by blast
  with snoc show ?case by (auto simp: sweep_snoc)
qed

lemma sweep_nonempty: "ps \<noteq> [] \<Longrightarrow> sweep ps \<noteq> []"
  by (cases ps rule: rev_cases) (simp_all add: sweep_snoc)

lemma sweep_last: "ps \<noteq> [] \<Longrightarrow> last (sweep ps) = last ps"
  by (cases ps rule: rev_cases) (simp_all add: sweep_snoc)

lemma sweep_hd: "ps \<noteq> [] \<Longrightarrow> hd (sweep ps) = hd ps"
proof (induction ps rule: rev_induct)
  case Nil
  then show ?case by simp
next
  case (snoc p ps)
  show ?case
  proof (cases "ps = []")
    case True
    then show ?thesis by simp
  next
    case False
    with sweep_nonempty have ne: "sweep ps \<noteq> []" by blast
    then have "pop_while (sweep ps) p \<noteq> []" by (rule pop_while_nonempty)
    then have "hd (sweep (ps @ [p])) = hd (pop_while (sweep ps) p)"
      by (simp add: sweep_snoc)
    also have "\<dots> = hd (sweep ps)" using ne by (rule pop_while_hd)
    also have "\<dots> = hd ps" using snoc.IH False by simp
    finally show ?thesis using False by simp
  qed
qed

lemma sweep_turns: "turns (sweep ps)"
proof (induction ps rule: rev_induct)
  case Nil
  then show ?case by simp
next
  case (snoc p ps)
  then show ?case by (simp add: sweep_snoc turns_push)
qed

lemma sorted_wrt_prefix: "prefix xs ys \<Longrightarrow> sorted_wrt R ys \<Longrightarrow> sorted_wrt R xs"
  by (auto simp: prefix_def sorted_wrt_append)

lemma sweep_sorted: "sorted_wrt R ps \<Longrightarrow> sorted_wrt R (sweep ps)"
proof (induction ps rule: rev_induct)
  case Nil
  then show ?case by simp
next
  case (snoc p ps)
  then have s: "sorted_wrt R ps" and lt: "\<forall>q\<in>set ps. R q p"
    by (auto simp: sorted_wrt_append)
  from s snoc.IH have "sorted_wrt R (sweep ps)" by simp
  with pop_while_prefix have 1: "sorted_wrt R (pop_while (sweep ps) p)"
    using sorted_wrt_prefix by blast
  have "set (pop_while (sweep ps) p) \<subseteq> set ps"
    using pop_while_prefix set_mono_prefix sweep_set by blast
  with lt have "\<forall>q\<in>set (pop_while (sweep ps) p). R q p" by blast
  with 1 show ?case by (simp add: sweep_snoc sorted_wrt_append)
qed

subsection \<open>The cover invariant\<close>

lemma pop_left:
  assumes "before asc a q" "before asc q b" "before asc b p"
      and "0 \<le> direction a b q" "direction a b p \<le> 0"
  shows "0 \<le> direction a p q"
proof -
  have ab: "before asc a b" using assms(1,2) before_trans by blast
  have aq: "before asc a q" by fact
  have 1: "0 \<le> edge_cross b p a b"
    using assms(5) by (simp add: direction_edge_cross(2) [of a b p] edge_cross_swap [of b p a b])
  have 2: "0 \<le> edge_cross a b a q"
    using assms(4) by (simp add: direction_edge_cross(1))
  have "0 \<le> edge_cross b p a q"
    using edge_cross_trans(1) [OF assms(3) ab aq 1 2] .
  moreover have "direction a p q = direction a b q + edge_cross b p a q"
    by (simp add: direction_def edge_cross_def algebra_simps)
  ultimately show ?thesis using assms(4) by simp
qed

lemma pop_right:
  assumes "before asc a b" "before asc b q" "before asc q p"
      and "0 \<le> direction b p q" "direction a b p \<le> 0"
  shows "0 \<le> direction a p q"
proof -
  have bp: "before asc b p" using assms(2,3) before_trans by blast
  have 1: "0 \<le> edge_cross q p b p"
    using assms(4) by (simp add: direction_def edge_cross_def algebra_simps)
  have 2: "0 \<le> edge_cross b p a b"
    using assms(5) by (simp add: direction_edge_cross(2) [of a b p] edge_cross_swap [of b p a b])
  have "0 \<le> edge_cross q p a b"
    using edge_cross_trans(1) [OF assms(3) bp assms(1) 1 2] .
  moreover have "direction a p q = edge_cross q p a b + direction b p q"
    by (simp add: direction_def edge_cross_def algebra_simps)
  ultimately show ?thesis using assms(4) by simp
qed

lemma reaches_pop:
  assumes sorted: "sorted_wrt (before asc) (l @ [a, b])"
      and bp: "before asc b p" and qp: "before asc q p"
      and turn: "direction a b p \<le> 0"
      and r: "reaches asc (l @ [a, b]) p q"
  shows "reaches asc (l @ [a]) p q"
proof -
  from sorted have ab: "before asc a b" by (simp add: sorted_wrt_append)
  have e: "edges_of (l @ [a, b]) = edges_of (l @ [a]) @ [(a, b)]"
    using edges_of_snoc [of "l @ [a]" b] by simp
  from r consider
      (vertex) "q \<in> set (l @ [a])"
    | (top) "q = b"
    | (inner) u v where "(u, v) \<in> set (edges_of (l @ [a]))"
        "before asc u q" "before asc q v" "0 \<le> direction u v q"
    | (last) "before asc a q" "before asc q b" "0 \<le> direction a b q"
    | (pending) "before asc b q" "0 \<le> direction b p q"
    unfolding reaches_def covered_def e by auto
  then show ?thesis
  proof cases
    case vertex
    then show ?thesis by (simp add: reaches_def covered_def)
  next
    case top
    have "direction a p b = - direction a b p"
      by (simp add: direction_def algebra_simps)
    with turn have "0 \<le> direction a p b" by simp
    with top ab bp show ?thesis by (simp add: reaches_def)
  next
    case inner
    then have "covered asc (l @ [a]) q" unfolding covered_def by blast
    then show ?thesis by (simp add: reaches_def)
  next
    case last
    with pop_left [OF last(1,2) bp last(3) turn] qp show ?thesis
      by (simp add: reaches_def)
  next
    case pending
    from ab pending(1) have "before asc a q" using before_trans by blast
    with pop_right [OF ab pending(1) qp pending(2) turn] qp show ?thesis
      by (simp add: reaches_def)
  qed
qed

lemma reaches_pop_while:
  "sorted_wrt (before asc) c \<Longrightarrow> (c \<noteq> [] \<Longrightarrow> before asc (last c) p) \<Longrightarrow> before asc q p
   \<Longrightarrow> reaches asc c p q \<Longrightarrow> reaches asc (pop_while c p) p q"
proof (induction c rule: pop_while_induct [where p = p])
  case (keep c)
  then show ?case by simp
next
  case (pop l a b)
  from pop.prems(1) have ab: "before asc a b" and s: "sorted_wrt (before asc) (l @ [a])"
    by (auto simp: sorted_wrt_append)
  from pop.prems(2) have bp: "before asc b p" by simp
  with ab have ap: "before asc a p" using before_trans by blast
  have "reaches asc (l @ [a]) p q"
    using reaches_pop [OF pop.prems(1) bp pop.prems(3) pop.hyps pop.prems(4)] .
  with pop.IH s ap pop.prems(3) have "reaches asc (pop_while (l @ [a]) p) p q" by simp
  with pop.hyps show ?case by (simp add: pop_while_snoc2)
qed

lemma reaches_push:
  assumes "c \<noteq> []" "reaches asc c p q"
  shows "covered asc (c @ [p]) q"
proof -
  have e: "edges_of (c @ [p]) = edges_of c @ [(last c, p)]"
    using assms(1) by (rule edges_of_snoc)
  from assms(2) show ?thesis
    unfolding reaches_def covered_def e by auto
qed

lemma sweep_covered:
  "sorted_wrt (before asc) ps \<Longrightarrow> q \<in> set ps \<Longrightarrow> covered asc (sweep ps) q"
proof (induction ps rule: rev_induct)
  case Nil
  then show ?case by simp
next
  case (snoc p ps)
  from snoc.prems(1) have s: "sorted_wrt (before asc) ps" and lt: "\<forall>u\<in>set ps. before asc u p"
    by (auto simp: sorted_wrt_append)
  show ?case
  proof (cases "q = p")
    case True
    then show ?thesis by (simp add: sweep_snoc covered_def)
  next
    case False
    with snoc.prems(2) have q: "q \<in> set ps" by simp
    then have ne: "ps \<noteq> []" by auto
    from q lt have qp: "before asc q p" by blast
    from snoc.IH s q have "covered asc (sweep ps) q" by simp
    then have r: "reaches asc (sweep ps) p q" by (simp add: reaches_def)
    have ss: "sorted_wrt (before asc) (sweep ps)" using s by (rule sweep_sorted)
    have "last (sweep ps) = last ps" using ne by (rule sweep_last)
    with ne lt have lp: "before asc (last (sweep ps)) p" by simp
    have "reaches asc (pop_while (sweep ps) p) p q"
      using reaches_pop_while [OF ss lp qp r] .
    moreover have "pop_while (sweep ps) p \<noteq> []"
      using ne by (simp add: sweep_nonempty pop_while_nonempty)
    ultimately show ?thesis by (simp add: sweep_snoc reaches_push)
  qed
qed

subsection \<open>Convex chains\<close>

text \<open>Walking forward along a chain, the edges keep turning away from an edge that the first one turns away from.\<close>

lemma chain_forward:
  "sorted_wrt (before asc) (b # c # r) \<Longrightarrow> turns (b # c # r) \<Longrightarrow> before asc e0 e1
   \<Longrightarrow> 0 < edge_cross e0 e1 b c
   \<Longrightarrow> (\<forall>v\<in>set (c # r). 0 < edge_cross e0 e1 b v)
       \<and> (\<forall>(u, v)\<in>set (edges_of (b # c # r)). 0 < edge_cross e0 e1 u v)"
proof (induction r arbitrary: b c)
  case Nil
  then show ?case by simp
next
  case (Cons d r)
  from Cons.prems(1) have bc: "before asc b c" and cd: "before asc c d"
    and s: "sorted_wrt (before asc) (c # d # r)" by auto
  from Cons.prems(2) have t: "turns (c # d # r)" and tb: "0 < direction b c d" by auto
  from tb have "0 < edge_cross b c c d" by (simp add: direction_edge_cross(2))
  with edge_cross_trans(3) [OF Cons.prems(3) bc cd] Cons.prems(4)
  have "0 < edge_cross e0 e1 c d" by simp
  from Cons.IH [OF s t Cons.prems(3) this]
  have v: "\<forall>v\<in>set (d # r). 0 < edge_cross e0 e1 c v"
    and e: "\<forall>(u, v)\<in>set (edges_of (c # d # r)). 0 < edge_cross e0 e1 u v" by auto
  have "0 < edge_cross e0 e1 b v" if "v \<in> set (c # d # r)" for v
  proof (cases "v = c")
    case True
    with Cons.prems(4) show ?thesis by simp
  next
    case False
    with that v have "0 < edge_cross e0 e1 c v" by auto
    moreover have "edge_cross e0 e1 b v = edge_cross e0 e1 b c + edge_cross e0 e1 c v"
      by (rule edge_cross_split(1))
    ultimately show ?thesis using Cons.prems(4) by simp
  qed
  with e Cons.prems(4) show ?case by auto
qed

lemma chain_backward:
  "sorted_wrt (before asc) (l @ [b, a]) \<Longrightarrow> turns (l @ [b, a]) \<Longrightarrow> before asc e0 e1
   \<Longrightarrow> 0 < edge_cross b a e0 e1
   \<Longrightarrow> (\<forall>v\<in>set (l @ [b]). 0 < edge_cross v a e0 e1)
       \<and> (\<forall>(u, v)\<in>set (edges_of (l @ [b, a])). 0 < edge_cross u v e0 e1)"
proof (induction l arbitrary: b a rule: rev_induct)
  case Nil
  then show ?case by simp
next
  case (snoc c l)
  from snoc.prems(1) have ba: "before asc b a" and cb: "before asc c b"
    and s: "sorted_wrt (before asc) (l @ [c, b])" by (auto simp: sorted_wrt_append)
  from snoc.prems(2) have t: "turns (l @ [c, b])"
    using turns_prefix [of "l @ [c, b]" "[a]"] by simp
  from snoc.prems(2) have "0 < direction c b a"
    using turns_mid [of l c b a "[]"] by simp
  then have "0 < edge_cross c b b a" by (simp add: direction_edge_cross(2))
  with edge_cross_trans(2) [OF cb ba snoc.prems(3)] snoc.prems(4)
  have "0 < edge_cross c b e0 e1" by simp
  from snoc.IH [OF s t snoc.prems(3) this]
  have v: "\<forall>v\<in>set (l @ [c]). 0 < edge_cross v b e0 e1"
    and e: "\<forall>(u, v)\<in>set (edges_of (l @ [c, b])). 0 < edge_cross u v e0 e1" by auto
  have "0 < edge_cross v a e0 e1" if "v \<in> set ((l @ [c]) @ [b])" for v
  proof (cases "v = b")
    case True
    with snoc.prems(4) show ?thesis by simp
  next
    case False
    with that v have "0 < edge_cross v b e0 e1" by auto
    moreover have "edge_cross v a e0 e1 = edge_cross v b e0 e1 + edge_cross b a e0 e1"
      by (rule edge_cross_split(2))
    ultimately show ?thesis using snoc.prems(4) by simp
  qed
  moreover have "edges_of ((l @ [c]) @ [b, a]) = edges_of (l @ [c, b]) @ [(b, a)]"
    using edges_of_snoc [of "l @ [c, b]" a] by simp
  ultimately show ?case using e snoc.prems(4) by auto
qed

lemma chain_vertex_left:
  assumes s: "sorted_wrt (before asc) (pre @ a # b # post)"
      and t: "turns (pre @ a # b # post)"
  shows "\<forall>v\<in>set post. 0 < direction a b v"
    and "\<forall>(u, v)\<in>set (edges_of (b # post)). 0 < edge_cross a b u v"
    and "\<forall>v\<in>set pre. 0 < direction a b v"
    and "\<forall>(u, v)\<in>set (edges_of (pre @ [a])). 0 < edge_cross u v a b"
proof -
  from s have ab: "before asc a b" by (simp add: sorted_wrt_append)
  show "\<forall>v\<in>set post. 0 < direction a b v"
    and "\<forall>(u, v)\<in>set (edges_of (b # post)). 0 < edge_cross a b u v"
  proof -
    have "(\<forall>v\<in>set post. 0 < direction a b v)
        \<and> (\<forall>(u, v)\<in>set (edges_of (b # post)). 0 < edge_cross a b u v)"
    proof (cases post)
      case Nil
      then show ?thesis by simp
    next
      case (Cons d r)
      from s Cons have s': "sorted_wrt (before asc) (b # d # r)"
        by (simp add: sorted_wrt_append)
      from t Cons have t': "turns (b # d # r)"
        using turns_suffix [of "pre @ [a]" "b # d # r"] by simp
      from t Cons have "0 < direction a b d" using turns_mid [of pre a b d r] by simp
      then have "0 < edge_cross a b b d" by (simp add: direction_edge_cross(2))
      from chain_forward [OF s' t' ab this] Cons show ?thesis
        by (simp add: direction_edge_cross(2))
    qed
    then show "\<forall>v\<in>set post. 0 < direction a b v"
      and "\<forall>(u, v)\<in>set (edges_of (b # post)). 0 < edge_cross a b u v" by blast+
  qed
  show "\<forall>v\<in>set pre. 0 < direction a b v"
    and "\<forall>(u, v)\<in>set (edges_of (pre @ [a])). 0 < edge_cross u v a b"
  proof -
    have "(\<forall>v\<in>set pre. 0 < direction a b v)
        \<and> (\<forall>(u, v)\<in>set (edges_of (pre @ [a])). 0 < edge_cross u v a b)"
    proof (cases pre rule: rev_cases)
      case Nil
      then show ?thesis by simp
    next
      case (snoc l e)
      from s snoc have s': "sorted_wrt (before asc) (l @ [e, a])"
        by (simp add: sorted_wrt_append)
      from t snoc have t': "turns (l @ [e, a])"
        using turns_prefix [of "l @ [e, a]" "b # post"] by simp
      from t snoc have "0 < direction e a b" using turns_mid [of l e a b post] by simp
      then have "0 < edge_cross e a a b" by (simp add: direction_edge_cross(2))
      from chain_backward [OF s' t' ab this] snoc show ?thesis
        by (simp add: direction_edge_cross(3))
    qed
    then show "\<forall>v\<in>set pre. 0 < direction a b v"
      and "\<forall>(u, v)\<in>set (edges_of (pre @ [a])). 0 < edge_cross u v a b" by blast+
  qed
qed

lemma direction_self [simp]: "direction a b a = 0" "direction a b b = 0" "direction a a b = 0"
  by (simp_all add: direction_def)

lemma chain_support:
  assumes s: "sorted_wrt (before asc) c" and t: "turns c"
      and e: "(a, b) \<in> set (edges_of c)" and cov: "covered asc c q"
  shows "0 \<le> direction a b q"
    and "direction a b q = 0 \<Longrightarrow> q = a \<or> q = b \<or> (before asc a q \<and> before asc q b)"
proof -
  from e obtain pre post where c: "c = pre @ a # b # post" by (auto simp: edges_of_split)
  note v = chain_vertex_left [OF s [unfolded c] t [unfolded c]]
  from s c have ab: "before asc a b" by (simp add: sorted_wrt_append)
  have ec: "edges_of c = edges_of (pre @ [a]) @ (a, b) # edges_of (b # post)"
    using edges_of_append [of pre a "b # post"] c by simp
  have vert: "w = a \<or> w = b \<or> 0 < direction a b w" if "w \<in> set c" for w
    using that v(1,3) c by auto
  have "(0 \<le> direction a b q)
      \<and> (direction a b q = 0 \<longrightarrow> q = a \<or> q = b \<or> (before asc a q \<and> before asc q b))"
  proof (cases "q \<in> set c")
    case True
    with vert [of q] show ?thesis by auto
  next
    case False
    with cov obtain u w where uw: "(u, w) \<in> set (edges_of c)"
      and uq: "before asc u q" and qw: "before asc q w" and d: "0 \<le> direction u w q"
      unfolding covered_def by auto
    from uq qw have uw_lt: "before asc u w" using before_trans by blast
    from uw ec consider (same) "(u, w) = (a, b)"
      | (later) "(u, w) \<in> set (edges_of (b # post))"
      | (earlier) "(u, w) \<in> set (edges_of (pre @ [a]))" by auto
    then show ?thesis
    proof cases
      case same
      with uq qw d show ?thesis by simp
    next
      case later
      with v(2) have 1: "0 < edge_cross a b u w" by auto
      from later have "u \<in> set (b # post)" using edges_of_set by blast
      with c vert [of u] have 2: "0 \<le> direction a b u" by auto
      from d have 3: "0 \<le> edge_cross u w u q" by (simp add: direction_edge_cross(1))
      have "0 < edge_cross a b u q"
        using edge_cross_trans(2) [OF ab uw_lt uq _ 3] 1 by simp
      moreover have "direction a b q = direction a b u + edge_cross a b u q"
        by (simp add: direction_def edge_cross_def algebra_simps)
      ultimately show ?thesis using 2 by simp
    next
      case earlier
      with v(4) have 1: "0 < edge_cross u w a b" by auto
      from earlier have "w \<in> set (pre @ [a])" using edges_of_set by blast
      with c vert [of w] have 2: "0 \<le> direction a b w" by auto
      from d have 3: "0 \<le> edge_cross q w u w" by (simp add: direction_edge_cross(4))
      have "0 < edge_cross q w a b"
        using edge_cross_trans(3) [OF qw uw_lt ab 3] 1 by simp
      moreover have "direction a b q = edge_cross q w a b + direction a b w"
        by (simp add: direction_def edge_cross_def algebra_simps)
      ultimately show ?thesis using 2 by simp
    qed
  qed
  then show "0 \<le> direction a b q"
    and "direction a b q = 0 \<Longrightarrow> q = a \<or> q = b \<or> (before asc a q \<and> before asc q b)"
    by blast+
qed

text \<open>An inner vertex of the chain lies strictly to the right of every segment that spans it.\<close>

lemma chain_vertex_strict:
  assumes s: "sorted_wrt (before asc) c" and t: "turns c"
      and c: "c = pre @ e1 # v # e2 # post"
      and ca: "covered asc c a" and cb: "covered asc c b"
      and av: "before asc a v" and vb: "before asc v b"
  shows "0 < direction a v b"
proof -
  from s c have e1v: "before asc e1 v" and ve2: "before asc v e2"
    by (simp_all add: sorted_wrt_append)
  have m1: "(e1, v) \<in> set (edges_of c)" using c edges_of_split by blast
  have "c = (pre @ [e1]) @ v # e2 # post" using c by simp
  then have m2: "(v, e2) \<in> set (edges_of c)" using edges_of_split by blast
  have "0 \<le> direction e1 v a" using chain_support(1) [OF s t m1 ca] .
  then have 1: "0 \<le> edge_cross a v e1 v" by (simp add: direction_edge_cross(4))
  have "0 < direction e1 v e2" using t c turns_mid by blast
  then have 2: "0 < edge_cross e1 v v e2" by (simp add: direction_edge_cross(2))
  have "0 \<le> direction v e2 b" using chain_support(1) [OF s t m2 cb] .
  then have 3: "0 \<le> edge_cross v e2 v b" by (simp add: direction_edge_cross(1))
  have "0 < edge_cross a v v e2"
    using edge_cross_trans(3) [OF av e1v ve2 1] 2 by simp
  then have "0 < edge_cross a v v b"
    using edge_cross_trans(2) [OF av ve2 vb _ 3] by simp
  then show ?thesis by (simp add: direction_edge_cross(2))
qed

lemma inner_vertex_split:
  assumes "v \<in> set c" "v \<noteq> hd c" "v \<noteq> last c"
  shows "\<exists>pre e1 e2 post. c = pre @ e1 # v # e2 # post"
proof -
  from assms(1) obtain l r where c: "c = l @ v # r" by (meson split_list)
  from assms(2) c have "l \<noteq> []" by (cases l) auto
  then obtain pre e1 where l: "l = pre @ [e1]" by (metis rev_exhaust)
  from assms(3) c have "r \<noteq> []" by auto
  then obtain e2 post where r: "r = e2 # post" by (cases r) auto
  from c l r have "c = pre @ e1 # v # e2 # post" by simp
  then show ?thesis by blast
qed

subsection \<open>Both chains of a sorted list\<close>

lemma sorted_rev: "sorted_wrt (before asc) s \<Longrightarrow> sorted_wrt (before (\<not> asc)) (rev s)"
proof -
  assume "sorted_wrt (before asc) s"
  moreover have "(\<lambda>a b. before (\<not> asc) b a) = before asc"
    by (intro ext) (simp add: before_def)
  ultimately show ?thesis by (simp add: sorted_wrt_rev)
qed

lemma sorted_distinct: "sorted_wrt (before asc) s \<Longrightarrow> distinct s"
proof (induction s)
  case Nil
  then show ?case by simp
next
  case (Cons a s)
  then show ?case using before_irrefl by auto
qed

lemma sorted_hd_first: "sorted_wrt (before asc) s \<Longrightarrow> a \<in> set s \<Longrightarrow> a \<noteq> hd s \<Longrightarrow> before asc (hd s) a"
  by (cases s) auto

lemma sorted_last_final:
  "sorted_wrt (before asc) s \<Longrightarrow> a \<in> set s \<Longrightarrow> a \<noteq> last s \<Longrightarrow> before asc a (last s)"
  by (cases s rule: rev_cases) (auto simp: sorted_wrt_append)

lemma ends_split: "c \<noteq> [] \<Longrightarrow> hd c \<noteq> last c \<Longrightarrow> \<exists>m. c = hd c # m @ [last c]"
proof -
  assume ne: "c \<noteq> []" and d: "hd c \<noteq> last c"
  then obtain a r where c: "c = a # r" by (cases c) auto
  with d have "r \<noteq> []" by auto
  then obtain m z where "r = m @ [z]" by (metis rev_exhaust)
  with c show ?thesis by simp
qed

text \<open>The vertices of a chain are extreme: none lies on or to the left of a segment spanning it.\<close>

lemma sweep_vertex_strict:
  assumes s: "sorted_wrt (before asc) ps" and v: "v \<in> set (sweep ps)"
      and a: "a \<in> set ps" and b: "b \<in> set ps"
      and av: "before asc a v" and vb: "before asc v b"
  shows "0 < direction a v b"
proof -
  from a have ne: "ps \<noteq> []" by auto
  have ss: "sorted_wrt (before asc) (sweep ps)" using s by (rule sweep_sorted)
  have "v \<noteq> hd (sweep ps)"
  proof
    assume "v = hd (sweep ps)"
    with ne have "v = hd ps" by (simp add: sweep_hd)
    with s a av show False
      using sorted_hd_first [of asc ps a] before_asym before_irrefl by blast
  qed
  moreover have "v \<noteq> last (sweep ps)"
  proof
    assume "v = last (sweep ps)"
    with ne have "v = last ps" by (simp add: sweep_last)
    with s b vb show False
      using sorted_last_final [of asc ps b] before_asym before_irrefl by blast
  qed
  ultimately obtain pre e1 e2 post where c: "sweep ps = pre @ e1 # v # e2 # post"
    using inner_vertex_split [OF v] by blast
  show ?thesis
    using chain_vertex_strict [OF ss sweep_turns c sweep_covered [OF s a] sweep_covered [OF s b] av vb] .
qed

lemma sweep_support:
  assumes s: "sorted_wrt (before asc) ps" and e: "(a, b) \<in> set (edges_of (sweep ps))"
      and q: "q \<in> set ps"
  shows "0 \<le> direction a b q"
    and "direction a b q = 0 \<Longrightarrow> q = a \<or> q = b \<or> (before asc a q \<and> before asc q b)"
  using chain_support [OF sweep_sorted [OF s] sweep_turns e sweep_covered [OF s q]] by blast+

lemma edges_closed: "h \<noteq> [] \<Longrightarrow> edges h = edges_of (h @ [hd h])"
proof -
  assume "h \<noteq> []"
  then obtain a r where h: "h = a # r" by (cases h) auto
  have "zip (xs @ zs) ys = zip xs ys" if "length ys = length xs" for xs ys :: "Point list" and zs
    using that by (simp add: zip_append1)
  from this [of "r @ [a]" "a # r" "[a]"] h show ?thesis
    by (simp add: edges_def edges_of_def)
qed

text \<open>
  The shape of the result for a strictly sorted list of at least two points: the lower
  chain runs from the least to the greatest point, the upper chain back.
\<close>

lemma hull_shape:
  assumes s: "sorted_wrt (before True) s" and len: "2 \<le> length s"
  obtains m1 m2 where
    "sweep s = hd s # m1 @ [last s]"
    "sweep (rev s) = last s # m2 @ [hd s]"
    "butlast (sweep s) @ butlast (sweep (rev s)) = hd s # m1 @ last s # m2"
proof -
  from len have ne: "s \<noteq> []" by auto
  from len obtain a b r where "s = a # b # r"
    by (cases s; cases "tl s") auto
  then have "hd s \<noteq> last s" using sorted_distinct [OF s] by auto
  with ne have "hd (sweep s) \<noteq> last (sweep s)"
    and "hd (sweep (rev s)) \<noteq> last (sweep (rev s))"
    by (simp_all add: sweep_hd sweep_last hd_rev last_rev)
  with ne obtain m1 m2 where 1: "sweep s = hd s # m1 @ [last s]"
    and 2: "sweep (rev s) = last s # m2 @ [hd s]"
    using ends_split [of "sweep s"] ends_split [of "sweep (rev s)"]
    by (auto simp: sweep_hd sweep_last hd_rev last_rev sweep_nonempty)
  have "butlast (sweep s) @ butlast (sweep (rev s)) = hd s # m1 @ last s # m2"
    unfolding 1 2 by (simp add: butlast_append)
  with 1 2 that show thesis by blast
qed

lemma hull_set:
  assumes s: "sorted_wrt (before True) s" and len: "2 \<le> length s"
  shows "set (butlast (sweep s) @ butlast (sweep (rev s))) = set (sweep s) \<union> set (sweep (rev s))"
proof -
  obtain m1 m2 where 1: "sweep s = hd s # m1 @ [last s]"
    and 2: "sweep (rev s) = last s # m2 @ [hd s]"
    and 3: "butlast (sweep s) @ butlast (sweep (rev s)) = hd s # m1 @ last s # m2"
    using hull_shape [OF s len] by blast
  show ?thesis unfolding 3 unfolding 1 2 by auto
qed

lemma hull_edges:
  assumes s: "sorted_wrt (before True) s" and len: "2 \<le> length s"
  shows "set (edges (butlast (sweep s) @ butlast (sweep (rev s))))
         = set (edges_of (sweep s)) \<union> set (edges_of (sweep (rev s)))"
proof -
  obtain m1 m2 where 1: "sweep s = hd s # m1 @ [last s]"
    and 2: "sweep (rev s) = last s # m2 @ [hd s]"
    and 3: "butlast (sweep s) @ butlast (sweep (rev s)) = hd s # m1 @ last s # m2"
    using hull_shape [OF s len] by blast
  have "edges (hd s # m1 @ last s # m2) = edges_of ((hd s # m1) @ last s # (m2 @ [hd s]))"
    using edges_closed [of "hd s # m1 @ last s # m2"] by simp
  also have "\<dots> = edges_of ((hd s # m1) @ [last s]) @ edges_of (last s # (m2 @ [hd s]))"
    by (rule edges_of_append)
  finally show ?thesis unfolding 3 unfolding 1 2 by simp
qed

lemma hull_subset:
  assumes s: "sorted_wrt (before True) s" and len: "2 \<le> length s"
  shows "set (butlast (sweep s) @ butlast (sweep (rev s))) \<subseteq> set s"
  using hull_set [OF s len] sweep_set [of s] sweep_set [of "rev s"] by auto

lemma hull_vertex_extreme:
  assumes s: "sorted_wrt (before True) s" and len: "2 \<le> length s"
      and v: "v \<in> set (butlast (sweep s) @ butlast (sweep (rev s)))"
      and a: "a \<in> set s" and b: "b \<in> set s"
      and av: "key a < key v" and vb: "key v < key b"
  shows "direction a v b \<noteq> 0"
proof -
  from v hull_set [OF s len] consider "v \<in> set (sweep s)" | "v \<in> set (sweep (rev s))" by auto
  then show ?thesis
  proof cases
    case 1
    from sweep_vertex_strict [OF s 1 a b] av vb show ?thesis by (simp add: before_def)
  next
    case 2
    have "0 < direction b v a"
      using sweep_vertex_strict [OF sorted_rev [OF s] 2, of b a] a b av vb
      by (simp add: before_def)
    moreover have "direction b v a = - direction a v b"
      by (simp add: direction_def algebra_simps)
    ultimately show ?thesis by simp
  qed
qed

lemma hull_distinct:
  assumes s: "sorted_wrt (before True) s" and len: "2 \<le> length s"
  shows "distinct (butlast (sweep s) @ butlast (sweep (rev s)))"
proof -
  obtain m1 m2 where 1: "sweep s = hd s # m1 @ [last s]"
    and 2: "sweep (rev s) = last s # m2 @ [hd s]"
    and 3: "butlast (sweep s) @ butlast (sweep (rev s)) = hd s # m1 @ last s # m2"
    using hull_shape [OF s len] by blast
  from len have ne: "s \<noteq> []" by auto
  have d1: "distinct (hd s # m1 @ [last s])"
    using sorted_distinct [OF sweep_sorted [OF s]] 1 by simp
  have d2: "distinct (last s # m2 @ [hd s])"
    using sorted_distinct [OF sweep_sorted [OF sorted_rev [OF s]]] 2 by simp
  have "v \<notin> set m2" if v: "v \<in> set m1" for v
  proof
    assume v2: "v \<in> set m2"
    from v 1 have l: "v \<in> set (sweep s)" by simp
    from v2 2 have u: "v \<in> set (sweep (rev s))" by simp
    from l have vs: "v \<in> set s" using sweep_set by blast
    from v d1 have "v \<noteq> hd s" "v \<noteq> last s" by auto
    with vs s have lo: "before True (hd s) v" and hi: "before True v (last s)"
      using sorted_hd_first sorted_last_final by blast+
    have hs: "hd s \<in> set s" and ls: "last s \<in> set s" using ne by simp_all
    have "0 < direction (hd s) v (last s)"
      using sweep_vertex_strict [OF s l hs ls lo hi] .
    moreover have "0 < direction (last s) v (hd s)"
      using sweep_vertex_strict [OF sorted_rev [OF s] u, of "last s" "hd s"] hs ls lo hi
      by (simp add: before_def)
    moreover have "direction (last s) v (hd s) = - direction (hd s) v (last s)"
      by (simp add: direction_def algebra_simps)
    ultimately show False by simp
  qed
  with d1 d2 show ?thesis unfolding 3 by auto
qed

lemma hull_support:
  assumes s: "sorted_wrt (before True) s" and len: "2 \<le> length s"
      and e: "(a, b) \<in> set (edges (butlast (sweep s) @ butlast (sweep (rev s))))"
      and q: "q \<in> set s"
  shows "0 \<le> direction a b q"
    and "direction a b q = 0 \<Longrightarrow>
           q = a \<or> q = b \<or> (key a < key q \<and> key q < key b) \<or> (key b < key q \<and> key q < key a)"
proof -
  from e hull_edges [OF s len]
  consider "(a, b) \<in> set (edges_of (sweep s))" | "(a, b) \<in> set (edges_of (sweep (rev s)))"
    by auto
  then have "0 \<le> direction a b q \<and> (direction a b q = 0 \<longrightarrow>
           q = a \<or> q = b \<or> (key a < key q \<and> key q < key b) \<or> (key b < key q \<and> key q < key a))"
  proof cases
    case 1
    from sweep_support [OF s 1 q] show ?thesis by (auto simp: before_def)
  next
    case 2
    from q have "q \<in> set (rev s)" by simp
    from sweep_support [OF sorted_rev [OF s] 2 this] show ?thesis by (auto simp: before_def)
  qed
  then show "0 \<le> direction a b q"
    and "direction a b q = 0 \<Longrightarrow>
           q = a \<or> q = b \<or> (key a < key q \<and> key q < key b) \<or> (key b < key q \<and> key q < key a)"
    by blast+
qed

section \<open>From the sweep to the result\<close>

subsection \<open>From the input to the sorted list\<close>

lemma Point_of_key [simp]: "(\<lambda>(a, b). \<lparr>x = a, y = b\<rparr>) (key p) = (p::Point)"
  by (simp add: key_def)

lemma key_Point [simp]: "key \<lparr>x = a, y = b\<rparr> = (a, b)"
  by (simp add: key_def)

lemma map_key_Point [simp]: "map key (map (\<lambda>(a, b). \<lparr>x = a, y = b\<rparr>) e) = e"
  by (induction e) auto

lemma Point_of_key_comp [simp]: "(\<lambda>(a, b). \<lparr>x = a, y = b\<rparr>) \<circ> key = (id :: Point \<Rightarrow> Point)"
  by (rule ext) simp

lemma before_True: "before True = (\<lambda>a b. key a < key b)"
  by (intro ext) (simp add: before_def)

lemma inj_key: "inj key"
  by (rule injI) (simp add: key_inj)

lemma remdups_map_key: "remdups (map key ps) = map key (remdups ps)"
proof (induction ps)
  case Nil
  then show ?case by simp
next
  case (Cons p ps)
  have "key p \<in> key ` set ps \<longleftrightarrow> p \<in> set ps"
    using key_inj by auto
  with Cons show ?case by simp
qed

lemma sorted_points_eq: "sorted_points points = sort_key key (remdups points)"
  by (simp add: sorted_points_def remdups_map_key)

lemma set_sorted_points [simp]: "set (sorted_points points) = set points"
  by (simp add: sorted_points_eq)

lemma length_sorted_points: "length (sorted_points points) = card (set points)"
  by (simp add: sorted_points_eq length_remdups_card_conv)

lemma card_keys: "card (set (map key points)) = card (set points)"
  by (simp add: card_image inj_key [THEN inj_on_subset])

lemma sorted_by_key:
  "sorted (map key s) \<Longrightarrow> distinct s \<Longrightarrow> sorted_wrt (before True) s"
proof -
  assume "sorted (map key s)" and "distinct s"
  then have "sorted_wrt (<) (map key s)"
    by (simp add: strict_sorted_iff distinct_map inj_key [THEN inj_on_subset])
  then show ?thesis by (simp add: sorted_wrt_map before_True)
qed

lemma sorted_sorted_points: "sorted_wrt (before True) (sorted_points points)"
  by (rule sorted_by_key) (simp_all add: sorted_points_eq)

lemma sorted_unique:
  assumes "sorted_wrt (before True) s1" "sorted_wrt (before True) s2" "set s1 = set s2"
  shows "s1 = s2"
proof -
  from assms(1,2) have "sorted_wrt (<) (map key s1)" "sorted_wrt (<) (map key s2)"
    by (simp_all add: sorted_wrt_map before_True)
  moreover from assms(3) have "set (map key s1) = set (map key s2)" by simp
  ultimately have "map key s1 = map key s2" using strict_sorted_equal by blast
  then show ?thesis using inj_key by (simp add: inj_map_eq_map)
qed

lemma convex_hull_small: "card (set points) \<le> 1 \<Longrightarrow> convex_hull points = remdups points"
  by (simp add: convex_hull_def convex_hull_of_def remdups_map_key length_remdups_card_conv)

lemma convex_hull_large:
  "2 \<le> card (set points) \<Longrightarrow>
   convex_hull points
     = butlast (sweep (sorted_points points)) @ butlast (sweep (rev (sorted_points points)))"
  by (simp add: convex_hull_def convex_hull_of_def sorted_points_def Let_def
      length_remdups_card_conv card_keys [simplified])

lemma convex_hull_of_enumeration:
  assumes "distinct e" "set e = set (map key points)"
  shows "convex_hull_of e = convex_hull points"
proof -
  let ?mk = "\<lambda>(a, b). \<lparr>x = a, y = b\<rparr>"
  let ?r = "remdups (map key points)"
  have len: "length e = length ?r"
    using assms by (metis distinct_card length_remdups_card_conv)
  show ?thesis
  proof (cases "length e \<le> 1")
    case True
    have "e = ?r"
    proof (cases e)
      case Nil
      with len show ?thesis by simp
    next
      case (Cons a r)
      with True have e: "e = [a]" by simp
      with len obtain b where r: "?r = [b]" by (cases ?r) auto
      from assms(2) e have "set ?r = {a}" by simp
      with r e show ?thesis by simp
    qed
    then show ?thesis by (simp add: convex_hull_def)
  next
    case False
    have d: "distinct (map ?mk e)" "distinct (map ?mk ?r)"
      using assms(1) by (auto simp: distinct_map inj_on_def)
    have "sort_key key (map ?mk e) = sort_key key (map ?mk ?r)"
    proof (rule sorted_unique)
      show "sorted_wrt (before True) (sort_key key (map ?mk e))"
        using d(1) by (intro sorted_by_key) simp_all
      show "sorted_wrt (before True) (sort_key key (map ?mk ?r))"
        using d(2) by (intro sorted_by_key) simp_all
      show "set (sort_key key (map ?mk e)) = set (sort_key key (map ?mk ?r))"
        using assms(2) by simp
    qed
    with False len show ?thesis
      by (simp add: convex_hull_def convex_hull_of_def Let_def)
  qed
qed

lemma convex_hull_data:
  "convex_hull data = [\<lparr>x = 0, y = 0\<rparr>, \<lparr>x = 2, y = 0\<rparr>, \<lparr>x = 2, y = 2\<rparr>, \<lparr>x = 0, y = 2\<rparr>]"
  by code_simp

subsection \<open>The result as a whole\<close>

lemma convex_hull_cases [case_names small large]:
  assumes "card (set points) \<le> 1 \<Longrightarrow> convex_hull points = remdups points \<Longrightarrow> R"
      and "\<And>s. s = sorted_points points \<Longrightarrow> sorted_wrt (before True) s \<Longrightarrow> 2 \<le> length s
             \<Longrightarrow> set s = set points
             \<Longrightarrow> convex_hull points = butlast (sweep s) @ butlast (sweep (rev s)) \<Longrightarrow> R"
  shows R
proof (cases "card (set points) \<le> 1")
  case True
  with assms(1) convex_hull_small show ?thesis by blast
next
  case False
  then have "2 \<le> card (set points)" by simp
  with assms(2) [OF refl sorted_sorted_points] show ?thesis
    by (simp add: length_sorted_points convex_hull_large)
qed

lemma convex_hull_subset: "set (convex_hull points) \<subseteq> set points"
proof (cases points rule: convex_hull_cases)
  case small
  then show ?thesis by simp
next
  case (large s)
  with hull_subset [OF large(2,3)] show ?thesis by simp
qed

lemma convex_hull_distinct: "distinct (convex_hull points)"
proof (cases points rule: convex_hull_cases)
  case small
  then show ?thesis by simp
next
  case (large s)
  with hull_distinct [OF large(2,3)] show ?thesis by simp
qed

lemma convex_hull_length: "3 \<le> length (convex_hull points) \<Longrightarrow> 2 \<le> card (set points)"
proof (cases points rule: convex_hull_cases)
  case small
  assume "3 \<le> length (convex_hull points)"
  with small show ?thesis by (simp add: length_remdups_card_conv)
next
  case (large s)
  then show ?thesis by (simp add: length_sorted_points)
qed

lemma cyclic_edge: "j < length h \<Longrightarrow> (h ! j, h ! (Suc j mod length h)) \<in> set (edges h)"
proof -
  assume j: "j < length h"
  then have "zip h (rotate1 h) ! j = (h ! j, h ! (Suc j mod length h))"
    by (simp add: nth_rotate1)
  moreover from j have "j < length (zip h (rotate1 h))" by simp
  ultimately show ?thesis unfolding edges_def by (metis nth_mem)
qed

lemma cyclic_neighbours:
  assumes "3 \<le> n" "i < n"
  shows "(i + n - 1) mod n < n" "Suc ((i + n - 1) mod n) mod n = i" "(i + 1) mod n < n"
    "(i + n - 1) mod n \<noteq> i" "(i + 1) mod n \<noteq> i" "(i + n - 1) mod n \<noteq> (i + 1) mod n"
proof -
  consider "i = 0" | "i = n - 1" "0 < i" | "0 < i" "i < n - 1" using assms by linarith
  then have "(i + n - 1) mod n < n \<and> Suc ((i + n - 1) mod n) mod n = i \<and> (i + 1) mod n < n
    \<and> (i + n - 1) mod n \<noteq> i \<and> (i + 1) mod n \<noteq> i \<and> (i + n - 1) mod n \<noteq> (i + 1) mod n"
  proof cases
    case 1
    then have j: "(i + n - 1) mod n = n - 1" using assms by simp
    have k: "(i + 1) mod n = 1" using 1 assms by simp
    have "Suc (n - 1) mod n = 0" using assms by simp
    with 1 assms show ?thesis unfolding j k by auto
  next
    case 2
    then have j: "(i + n - 1) mod n = n - 2" using assms by (simp add: le_mod_geq)
    have k: "(i + 1) mod n = 0" using 2 assms by simp
    have "Suc (n - 2) = n - 1" using assms by simp
    then have "Suc (n - 2) mod n = n - 1" using assms by simp
    with 2 assms show ?thesis unfolding j k by auto
  next
    case 3
    then have j: "(i + n - 1) mod n = i - 1" using assms by (simp add: le_mod_geq)
    have k: "(i + 1) mod n = i + 1" using 3 assms by simp
    have "Suc (i - 1) mod n = i" using 3 assms by simp
    with 3 assms show ?thesis unfolding j k by auto
  qed
  then show "(i + n - 1) mod n < n" "Suc ((i + n - 1) mod n) mod n = i" "(i + 1) mod n < n"
    "(i + n - 1) mod n \<noteq> i" "(i + 1) mod n \<noteq> i" "(i + n - 1) mod n \<noteq> (i + 1) mod n"
    by blast+
qed

lemma convex_hull_turn:
  assumes h: "h = convex_hull points" and n: "n = length h" and n3: "3 \<le> n" and i: "i < n"
  shows "0 < direction (h ! ((i + n - 1) mod n)) (h ! i) (h ! ((i + 1) mod n))"
proof -
  from n3 h n have "2 \<le> card (set points)" using convex_hull_length by simp
  then obtain s where s: "sorted_wrt (before True) s" and len: "2 \<le> length s"
    and set: "set s = set points"
    and hs: "h = butlast (sweep s) @ butlast (sweep (rev s))"
    using h by (cases points rule: convex_hull_cases) auto
  let ?j = "(i + n - 1) mod n" and ?k = "(i + 1) mod n"
  note c = cyclic_neighbours [OF n3 i]
  have d: "distinct h" using h convex_hull_distinct by simp
  have e: "(h ! ?j, h ! i) \<in> set (edges h)"
    using cyclic_edge [of ?j h] c(1,2) n by simp
  have ab: "h ! ?j \<noteq> h ! i" and bc: "h ! i \<noteq> h ! ?k" and ac: "h ! ?j \<noteq> h ! ?k"
    using d c i n by (simp_all add: nth_eq_iff_index_eq)
  have mem: "h ! ?j \<in> set s" "h ! i \<in> set s" "h ! ?k \<in> set s" and kh: "h ! ?k \<in> set h"
    using c(1,3) i n h set convex_hull_subset [of points] by (auto simp: subset_iff)
  note sup = hull_support [OF s len, folded hs, OF e mem(3)]
  note ext = hull_vertex_extreme [OF s len, folded hs, OF kh]
  have "direction (h ! ?j) (h ! i) (h ! ?k) \<noteq> 0"
  proof
    assume z: "direction (h ! ?j) (h ! i) (h ! ?k) = 0"
    have sw1: "direction (h ! ?j) (h ! ?k) (h ! i) = - direction (h ! ?j) (h ! i) (h ! ?k)"
      and sw2: "direction (h ! i) (h ! ?k) (h ! ?j) = direction (h ! ?j) (h ! i) (h ! ?k)"
      by (simp_all add: direction_def algebra_simps)
    from sup(2) [OF z] ab bc ac consider
        "key (h ! ?j) < key (h ! ?k)" "key (h ! ?k) < key (h ! i)"
      | "key (h ! i) < key (h ! ?k)" "key (h ! ?k) < key (h ! ?j)" by auto
    then show False
    proof cases
      case 1
      from ext [OF mem(1) mem(2) 1] z sw1 show False by simp
    next
      case 2
      from ext [OF mem(2) mem(1) 2] z sw2 show False by simp
    qed
  qed
  with sup(1) show ?thesis by simp
qed

section \<open>The turn test\<close>

lemma direction_zero_collinear: "direction a b c = 0 \<longleftrightarrow> collinear3 a b c"
proof
  assume d: "direction a b c = 0"
  show "collinear3 a b c"
  proof (cases "x b = x a \<and> y b = y a")
    case True
    then have "\<not> ((1::int) = 0 \<and> (0::int) = 0)"
      and "1 * (x b - x a) = 0 * (x c - x a)" and "1 * (y b - y a) = 0 * (y c - y a)"
      by simp_all
    then show ?thesis unfolding collinear3_def by blast
  next
    case False
    let ?s = "if x b = x a then y c - y a else x c - x a"
    let ?t = "if x b = x a then y b - y a else x b - x a"
    from False have nz: "\<not> (?s = 0 \<and> ?t = 0)" by auto
    from d have e: "(x b - x a) * (y c - y a) = (y b - y a) * (x c - x a)"
      by (simp add: direction_def)
    have ex: "?s * (x b - x a) = ?t * (x c - x a)"
      using e False by (auto simp: mult.commute)
    have ey: "?s * (y b - y a) = ?t * (y c - y a)"
      using e False by (auto simp: mult.commute)
    from nz ex ey show ?thesis unfolding collinear3_def by blast
  qed
next
  assume "collinear3 a b c"
  then obtain s t where nz: "\<not> (s = 0 \<and> t = 0)"
    and ex: "s * (x b - x a) = t * (x c - x a)"
    and ey: "s * (y b - y a) = t * (y c - y a)"
    unfolding collinear3_def by blast
  have "s * direction a b c = (s * (x b - x a)) * (y c - y a) - (s * (y b - y a)) * (x c - x a)"
    by (simp add: direction_def algebra_simps)
  also have "\<dots> = (t * (x c - x a)) * (y c - y a) - (t * (y c - y a)) * (x c - x a)"
    by (simp only: ex ey)
  also have "\<dots> = 0" by (simp add: algebra_simps)
  finally have s0: "s * direction a b c = 0" .
  have "t * direction a b c = (x b - x a) * (t * (y c - y a)) - (y b - y a) * (t * (x c - x a))"
    by (simp add: direction_def algebra_simps)
  also have "\<dots> = (x b - x a) * (s * (y b - y a)) - (y b - y a) * (s * (x b - x a))"
    by (simp only: ex ey)
  also have "\<dots> = 0" by (simp add: algebra_simps)
  finally have t0: "t * direction a b c = 0" .
  from nz s0 t0 show "direction a b c = 0" by auto
qed


section \<open>Properties of the result\<close>




text \<open>
  C7: when the input has at most one distinct point, the result is the deduplicated input:
  empty for the empty input, and the single point, once, when every input point is that
  point.
\<close>

theorem convex_hull_trivial:
  assumes "card (set (map key points)) \<le> 1"
  shows "convex_hull points = remdups points
       \<and> (points = [] \<longrightarrow> convex_hull points = [])
       \<and> (\<forall>p\<in>set points. convex_hull points = [p])"
proof -
  from assms have c: "card (set points) \<le> 1" by (simp only: card_keys)
  then have e: "convex_hull points = remdups points" by (rule convex_hull_small)
  have "remdups points = [p]" if p: "p \<in> set points" for p
  proof -
    from p c have "card (set points) = 1"
      by (metis List.finite_set One_nat_def Suc_leI card_gt_0_iff empty_iff le_antisym)
    then have "length (remdups points) = 1" by (simp add: length_remdups_card_conv)
    then obtain q where q: "remdups points = [q]"
      by (cases "remdups points") auto
    then have "set points = {q}" by (metis set_remdups list.set(1) list.set(2))
    with p q show ?thesis by simp
  qed
  with e show ?thesis by auto
qed

theorem convex_hull_trivial_witness:
  "card (set (map key [\<lparr>x = 5, y = 5\<rparr>, \<lparr>x = 5, y = 5\<rparr>])) \<le> 1
   \<and> convex_hull [\<lparr>x = 5, y = 5\<rparr>, \<lparr>x = 5, y = 5\<rparr>] = [\<lparr>x = 5, y = 5\<rparr>]
   \<and> convex_hull [\<lparr>x = 5, y = 5\<rparr>] = [\<lparr>x = 5, y = 5\<rparr>]
   \<and> convex_hull [] = []"
proof -
  have 1: "card (set (map key [\<lparr>x = 5, y = 5\<rparr>, \<lparr>x = 5, y = 5\<rparr>])) \<le> 1" by simp
  have 2: "card (set (map key [\<lparr>x = 5, y = 5\<rparr>])) \<le> 1" by simp
  have 3: "card (set (map key ([]::Point list))) \<le> 1" by simp
  from convex_hull_trivial [OF 1] convex_hull_trivial [OF 2] convex_hull_trivial [OF 3] 1
  show ?thesis by simp
qed



subsection \<open>Segments and polygons\<close>

lemma between_on_segment:
  assumes d: "direction a b q = 0" and aq: "key a \<le> key q" and qb: "key q \<le> key b"
  shows "on_segment a b q"
proof -
  from aq qb have xr: "x a \<le> x q" "x q \<le> x b"
    by (auto simp: key_def less_eq_prod_def)
  have yr: "min (y a) (y b) \<le> y q \<and> y q \<le> max (y a) (y b)"
  proof (cases "x a = x b")
    case True
    with xr have "x q = x a" by simp
    with True aq qb show ?thesis by (auto simp: key_def less_eq_prod_def)
  next
    case False
    with xr have dx: "0 < x b - x a" by simp
    from d have e1: "(x b - x a) * (y q - y a) = (y b - y a) * (x q - x a)"
      by (simp add: direction_def)
    have e2: "(x b - x a) * (y b - y q) = (y b - y a) * (x b - x q)"
    proof -
      have "(x b - x a) * (y b - y q) = (x b - x a) * (y b - y a) - (x b - x a) * (y q - y a)"
        by (simp add: algebra_simps)
      also have "\<dots> = (x b - x a) * (y b - y a) - (y b - y a) * (x q - x a)"
        by (simp only: e1)
      also have "\<dots> = (y b - y a) * (x b - x q)" by (simp add: algebra_simps)
      finally show ?thesis .
    qed
    show ?thesis
    proof (cases "y a \<le> y b")
      case True
      with xr have "0 \<le> (y b - y a) * (x q - x a)" "0 \<le> (y b - y a) * (x b - x q)" by simp_all
      with e1 e2 have "0 \<le> (x b - x a) * (y q - y a)" "0 \<le> (x b - x a) * (y b - y q)" by simp_all
      with dx have "0 \<le> y q - y a" "0 \<le> y b - y q" by (simp_all add: zero_le_mult_iff)
      with True show ?thesis by simp
    next
      case False
      with xr have "(y b - y a) * (x q - x a) \<le> 0" "(y b - y a) * (x b - x q) \<le> 0"
        by (simp_all add: mult_le_0_iff)
      with e1 e2 have "(x b - x a) * (y q - y a) \<le> 0" "(x b - x a) * (y b - y q) \<le> 0" by simp_all
      with dx have "y q - y a \<le> 0" "y b - y q \<le> 0" by (simp_all add: mult_le_0_iff)
      with False show ?thesis by simp
    qed
  qed
  from xr have "min (x a) (x b) \<le> x q \<and> x q \<le> max (x a) (x b)" by simp
  with d yr show ?thesis by (simp add: on_segment_def)
qed

lemma sorted_key_range:
  assumes "sorted_wrt (before True) s" "q \<in> set s"
  shows "key (hd s) \<le> key q" "key q \<le> key (last s)"
proof -
  show "key (hd s) \<le> key q"
    using sorted_hd_first [OF assms] by (cases "q = hd s") (auto simp: before_def)
  show "key q \<le> key (last s)"
    using sorted_last_final [OF assms] by (cases "q = last s") (auto simp: before_def)
qed

lemma on_or_inside_polygon:
  "3 \<le> length h \<Longrightarrow> on_or_inside h q = (\<forall>(a, b)\<in>set (edges h). 0 \<le> direction a b q)"
proof -
  assume "3 \<le> length h"
  then obtain a b c r where "h = a # b # c # r"
    by (cases h; cases "tl h"; cases "tl (tl h)") auto
  then show ?thesis by (simp add: list_all_iff)
qed

lemma direction_swap12: "direction b a c = - direction a b c"
  by (simp add: direction_def algebra_simps)

lemma hull_two:
  assumes s: "sorted_wrt (before True) s" and len: "2 \<le> length s"
      and two: "butlast (sweep s) @ butlast (sweep (rev s)) = [a, b]"
      and q: "q \<in> set s"
  shows "a = hd s" "b = last s" "on_segment a b q"
proof -
  obtain m1 m2 where 3: "butlast (sweep s) @ butlast (sweep (rev s)) = hd s # m1 @ last s # m2"
    using hull_shape [OF s len] by blast
  with two have ab: "a = hd s \<and> b = last s" by (cases m1) auto
  then show "a = hd s" "b = last s" by simp_all
  have "edges [a, b] = [(a, b), (b, a)]" by (simp add: edges_def)
  then have e: "(a, b) \<in> set (edges (butlast (sweep s) @ butlast (sweep (rev s))))"
       "(b, a) \<in> set (edges (butlast (sweep s) @ butlast (sweep (rev s))))"
    using two by simp_all
  have "0 \<le> direction a b q" "0 \<le> direction b a q"
    using hull_support(1) [OF s len _ q] e by blast+
  then have "direction a b q = 0" by (simp add: direction_swap12 [of b a q])
  then show "on_segment a b q"
    using between_on_segment sorted_key_range [OF s q] ab by simp
qed

lemma convex_hull_inside:
  assumes "p \<in> set points"
  shows "on_or_inside (convex_hull points) p"
proof (cases points rule: convex_hull_cases)
  case small
  from assms small(1) have "card (set points) = 1"
    by (metis List.finite_set One_nat_def Suc_leI card_gt_0_iff empty_iff le_antisym)
  then have "length (remdups points) = 1" by (simp add: length_remdups_card_conv)
  then obtain q where q: "remdups points = [q]" by (cases "remdups points") auto
  then have "set points = {q}" by (metis set_remdups list.set(1) list.set(2))
  with assms q small(2) show ?thesis by simp
next
  case (large s)
  let ?h = "butlast (sweep s) @ butlast (sweep (rev s))"
  from assms large have ps: "p \<in> set s" by simp
  obtain m1 m2 where 3: "?h = hd s # m1 @ last s # m2"
    using hull_shape [OF large(2,3)] by blast
  show ?thesis
  proof (cases "3 \<le> length ?h")
    case True
    then show ?thesis
      using hull_support(1) [OF large(2,3) _ ps] large(5)
      by (auto simp: on_or_inside_polygon)
  next
    case False
    with 3 have "?h = [hd s, last s]" by (cases m1; cases m2) auto
    with hull_two(3) [OF large(2,3) this ps] large(5) show ?thesis by simp
  qed
qed

subsection \<open>Convex combinations\<close>

lemma convex_combinationI:
  assumes "\<forall>v. 0 \<le> w v" "0 < (\<Sum>v\<leftarrow>h. w v)"
    "(\<Sum>v\<leftarrow>h. w v) * x q = (\<Sum>v\<leftarrow>h. w v * x v)"
    "(\<Sum>v\<leftarrow>h. w v) * y q = (\<Sum>v\<leftarrow>h. w v * y v)"
  shows "convex_combination h q"
  unfolding convex_combination_def using assms by (intro exI [of _ w]) simp

lemma sum_list_single:
  fixes f :: "Point \<Rightarrow> int"
  assumes "distinct h" "a \<in> set h"
  shows "(\<Sum>v\<leftarrow>h. if v = a then f v else 0) = f a"
proof -
  have "(\<Sum>v\<leftarrow>h. if v = a then f v else 0) = (\<Sum>v\<in>set h. if v = a then f v else 0)"
    using assms(1) by (rule sum_list_distinct_conv_sum_set)
  also have "\<dots> = f a" using assms(2) by (simp add: sum.delta)
  finally show ?thesis .
qed

lemma sum_list_three:
  fixes f :: "Point \<Rightarrow> int"
  assumes d: "distinct h" and m: "a \<in> set h" "b \<in> set h" "c \<in> set h"
      and n: "a \<noteq> b" "b \<noteq> c" "a \<noteq> c"
  shows "(\<Sum>v\<leftarrow>h. (if v = a then k1 else if v = b then k2 else if v = c then k3 else 0) * f v)
         = k1 * f a + k2 * f b + k3 * f c"
proof -
  have "(\<lambda>v. (if v = a then k1 else if v = b then k2 else if v = c then k3 else 0) * f v)
      = (\<lambda>v. (if v = a then k1 * f v else 0) + ((if v = b then k2 * f v else 0)
           + (if v = c then k3 * f v else 0)))"
    using n by (intro ext) auto
  then have "(\<Sum>v\<leftarrow>h. (if v = a then k1 else if v = b then k2 else if v = c then k3 else 0) * f v)
      = (\<Sum>v\<leftarrow>h. (if v = a then k1 * f v else 0) + ((if v = b then k2 * f v else 0)
           + (if v = c then k3 * f v else 0)))"
    by simp
  also have "\<dots> = (\<Sum>v\<leftarrow>h. if v = a then k1 * f v else 0)
      + ((\<Sum>v\<leftarrow>h. if v = b then k2 * f v else 0) + (\<Sum>v\<leftarrow>h. if v = c then k3 * f v else 0))"
    by (simp only: sum_list_addf)
  also have "\<dots> = k1 * f a + k2 * f b + k3 * f c"
    using sum_list_single [OF d m(1), of "\<lambda>v. k1 * f v"]
      sum_list_single [OF d m(2), of "\<lambda>v. k2 * f v"]
      sum_list_single [OF d m(3), of "\<lambda>v. k3 * f v"] by simp
  finally show ?thesis .
qed

lemma triangle_combination:
  assumes d: "distinct h" and m: "a \<in> set h" "b \<in> set h" "c \<in> set h"
      and n: "a \<noteq> b" "b \<noteq> c" "a \<noteq> c"
      and w: "0 \<le> direction b c q" "0 \<le> direction c a q" "0 \<le> direction a b q"
      and pos: "0 < direction a b c"
  shows "convex_combination h q"
proof -
  let ?w = "\<lambda>v. if v = a then direction b c q else if v = b then direction c a q
                 else if v = c then direction a b q else 0"
  have nonneg: "\<forall>v. 0 \<le> ?w v" using w by simp
  have "(\<Sum>v\<leftarrow>h. ?w v) = (\<Sum>v\<leftarrow>h. ?w v * 1)" by simp
  also have "\<dots> = direction b c q * 1 + direction c a q * 1 + direction a b q * 1"
    using sum_list_three [OF d m n, of _ _ _ "\<lambda>v. 1"] by blast
  also have "\<dots> = direction a b c" by (simp add: direction_def algebra_simps)
  finally have total: "(\<Sum>v\<leftarrow>h. ?w v) = direction a b c" .
  have sx: "(\<Sum>v\<leftarrow>h. ?w v * x v) = direction b c q * x a + direction c a q * x b + direction a b q * x c"
    using sum_list_three [OF d m n] by blast
  have sy: "(\<Sum>v\<leftarrow>h. ?w v * y v) = direction b c q * y a + direction c a q * y b + direction a b q * y c"
    using sum_list_three [OF d m n] by blast
  have ex: "direction a b c * x q = direction b c q * x a + direction c a q * x b + direction a b q * x c"
    by (simp add: direction_def algebra_simps)
  have ey: "direction a b c * y q = direction b c q * y a + direction c a q * y b + direction a b q * y c"
    by (simp add: direction_def algebra_simps)
  have "0 < (\<Sum>v\<leftarrow>h. ?w v)" using total pos by simp
  moreover have "(\<Sum>v\<leftarrow>h. ?w v) * x q = (\<Sum>v\<leftarrow>h. ?w v * x v)" using total sx ex by simp
  moreover have "(\<Sum>v\<leftarrow>h. ?w v) * y q = (\<Sum>v\<leftarrow>h. ?w v * y v)" using total sy ey by simp
  ultimately show ?thesis using nonneg by (intro convex_combinationI [of ?w]) blast+
qed

lemma segment_combination:
  assumes s: "on_segment a b q" and ab: "key a < key b"
  shows "convex_combination [a, b] q"
proof -
  from s have d: "(x b - x a) * (y q - y a) = (y b - y a) * (x q - x a)"
    and xr: "min (x a) (x b) \<le> x q" "x q \<le> max (x a) (x b)"
    and yr: "min (y a) (y b) \<le> y q" "y q \<le> max (y a) (y b)"
    by (simp_all add: on_segment_def direction_def)
  show ?thesis
  proof (cases "x a < x b")
    case True
    let ?w = "\<lambda>v. if v = a then x b - x q else x q - x a"
    from ab have "a \<noteq> b" by auto
    with True xr have "\<forall>v. 0 \<le> ?w v" "0 < (\<Sum>v\<leftarrow>[a, b]. ?w v)" by auto
    moreover have "(\<Sum>v\<leftarrow>[a, b]. ?w v) * x q = (\<Sum>v\<leftarrow>[a, b]. ?w v * x v)"
      using \<open>a \<noteq> b\<close> by (simp add: algebra_simps)
    moreover have "(\<Sum>v\<leftarrow>[a, b]. ?w v) * y q = (\<Sum>v\<leftarrow>[a, b]. ?w v * y v)"
    proof -
      have "(x b - x a) * y q = (x b - x q) * y a + (x q - x a) * y b"
        using d by (simp add: algebra_simps)
      then show ?thesis using \<open>a \<noteq> b\<close> by (simp add: algebra_simps)
    qed
    ultimately show ?thesis by (intro convex_combinationI [of ?w]) blast+
  next
    case False
    with ab have xe: "x a = x b" and yl: "y a < y b" by (auto simp: key_def)
    with xr have xq: "x q = x a" by simp
    let ?w = "\<lambda>v. if v = a then y b - y q else y q - y a"
    from ab have "a \<noteq> b" by auto
    with yl yr have "\<forall>v. 0 \<le> ?w v" "0 < (\<Sum>v\<leftarrow>[a, b]. ?w v)" by auto
    moreover have "(\<Sum>v\<leftarrow>[a, b]. ?w v) * x q = (\<Sum>v\<leftarrow>[a, b]. ?w v * x v)"
      using \<open>a \<noteq> b\<close> xe xq by (simp add: algebra_simps)
    moreover have "(\<Sum>v\<leftarrow>[a, b]. ?w v) * y q = (\<Sum>v\<leftarrow>[a, b]. ?w v * y v)"
      using \<open>a \<noteq> b\<close> by (simp add: algebra_simps)
    ultimately show ?thesis by (intro convex_combinationI [of ?w]) blast+
  qed
qed

lemma point_combination: "convex_combination [a] a"
proof -
  have "\<forall>v::Point. (0::int) \<le> (\<lambda>v. 1) v" "0 < (\<Sum>v\<leftarrow>[a]. (\<lambda>v. 1::int) v)"
    "(\<Sum>v\<leftarrow>[a]. (\<lambda>v. 1::int) v) * x a = (\<Sum>v\<leftarrow>[a]. (\<lambda>v. 1) v * x v)"
    "(\<Sum>v\<leftarrow>[a]. (\<lambda>v. 1::int) v) * y a = (\<Sum>v\<leftarrow>[a]. (\<lambda>v. 1) v * y v)"
    by simp_all
  then show ?thesis by (intro convex_combinationI [of "\<lambda>v. 1"]) blast+
qed

lemma sign_change:
  fixes f :: "nat \<Rightarrow> int"
  shows "0 \<le> f 1 \<Longrightarrow> f m \<le> 0 \<Longrightarrow> 1 < m \<Longrightarrow> \<exists>k. 1 \<le> k \<and> k < m \<and> 0 \<le> f k \<and> f (Suc k) \<le> 0"
proof (induction m)
  case 0
  then show ?case by simp
next
  case (Suc m)
  show ?case
  proof (cases "f m \<le> 0 \<and> 1 < m")
    case True
    with Suc.IH Suc.prems(1) obtain k where "1 \<le> k" "k < m" "0 \<le> f k" "f (Suc k) \<le> 0" by blast
    then show ?thesis using less_Suc_eq by blast
  next
    case False
    then consider "0 < f m" | "m = 1" using Suc.prems(3) by linarith
    then have "1 \<le> m \<and> m < Suc m \<and> 0 \<le> f m \<and> f (Suc m) \<le> 0"
      using Suc.prems by cases auto
    then show ?thesis by blast
  qed
qed

lemma polygon_combination:
  assumes d: "distinct h" and n3: "3 \<le> length h"
      and edge: "\<And>j. j < length h \<Longrightarrow> 0 \<le> direction (h ! j) (h ! (Suc j mod length h)) p"
      and pos: "\<And>k. 1 \<le> k \<Longrightarrow> Suc k < length h \<Longrightarrow> 0 < direction (h ! 0) (h ! k) (h ! Suc k)"
  shows "convex_combination h p"
proof -
  let ?n = "length h"
  let ?f = "\<lambda>k. direction (h ! 0) (h ! k) p"
  from n3 have "h \<noteq> []" by auto
  then have "0 \<le> ?f 1" using edge [of 0] n3 by simp
  moreover have "?f (?n - 1) \<le> 0"
  proof -
    from n3 have "Suc (?n - 1) = ?n" by simp
    then have "Suc (?n - 1) mod ?n = 0" by (simp only: mod_self)
    moreover from n3 have "?n - 1 < ?n" by simp
    ultimately have "?n - 1 < ?n" and "Suc (?n - 1) mod ?n = 0" by blast+
    with edge [of "?n - 1"] have "0 \<le> direction (h ! (?n - 1)) (h ! 0) p" by simp
    then show ?thesis using direction_swap12 [of "h ! 0" "h ! (?n - 1)" p] by simp
  qed
  moreover have "1 < ?n - 1" using n3 by simp
  ultimately obtain k where k: "1 \<le> k" "k < ?n - 1" "0 \<le> ?f k" "?f (Suc k) \<le> 0"
    using sign_change [of ?f "?n - 1"] by blast
  let ?a = "h ! 0" and ?b = "h ! k" and ?c = "h ! Suc k"
  from k n3 have lt: "0 < ?n" "k < ?n" "Suc k < ?n" by auto
  then have mem: "?a \<in> set h" "?b \<in> set h" "?c \<in> set h" using nth_mem by blast+
  have neq: "?a \<noteq> ?b" "?b \<noteq> ?c" "?a \<noteq> ?c"
    using d lt k(1) by (simp_all add: nth_eq_iff_index_eq)
  have w1: "0 \<le> direction ?b ?c p" using edge [of k] lt by simp
  have w2: "0 \<le> direction ?c ?a p"
    using k(4) direction_swap12 [of ?a ?c p] by simp
  have w3: "0 \<le> direction ?a ?b p" using k(3) .
  show ?thesis
    using triangle_combination [OF d mem neq w1 w2 w3 pos [OF k(1) lt(3)]] .
qed

lemma convex_hull_combination:
  assumes "p \<in> set points"
  shows "convex_combination (convex_hull points) p"
proof (cases points rule: convex_hull_cases)
  case small
  from assms small(1) have "card (set points) = 1"
    by (metis List.finite_set One_nat_def Suc_leI card_gt_0_iff empty_iff le_antisym)
  then have "length (remdups points) = 1" by (simp add: length_remdups_card_conv)
  then obtain q where q: "remdups points = [q]" by (cases "remdups points") auto
  then have "set points = {q}" by (metis set_remdups list.set(1) list.set(2))
  with assms q small(2) show ?thesis by (simp add: point_combination)
next
  case (large s)
  define h where "h = butlast (sweep s) @ butlast (sweep (rev s))"
  note fold = h_def [symmetric]
  from assms large have ps: "p \<in> set s" by simp
  from large(3) have ne: "s \<noteq> []" by auto
  obtain m1 m2 where 3: "h = hd s # m1 @ last s # m2"
    using hull_shape [OF large(2,3)] unfolding fold by blast
  have d: "distinct h" using hull_distinct [OF large(2,3)] unfolding fold .
  have sub: "set h \<subseteq> set s" using hull_subset [OF large(2,3)] unfolding fold .
  note sup = hull_support [OF large(2,3), unfolded fold]
  have "convex_combination h p"
  proof (cases "3 \<le> length h")
    case False
    with 3 have two: "h = [hd s, last s]" by (cases m1; cases m2) auto
    from d two have "hd s \<noteq> last s" by simp
    then have "key (hd s) < key (last s)"
      using sorted_last_final [OF large(2), of "hd s"] ne by (simp add: before_def)
    with hull_two(3) [OF large(2,3) two [unfolded h_def] ps] two show ?thesis
      by (simp add: segment_combination)
  next
    case True
    have h0: "h ! 0 = hd s" using 3 by simp
    show ?thesis
    proof (rule polygon_combination [OF d True])
      show "0 \<le> direction (h ! j) (h ! (Suc j mod length h)) p" if "j < length h" for j
        using sup(1) [OF cyclic_edge [OF that] ps] .
    next
      fix k assume k: "1 \<le> k" "Suc k < length h"
      let ?a = "h ! 0" and ?b = "h ! k" and ?c = "h ! Suc k"
      from k have lt: "0 < length h" "k < length h" by auto
      then have mem: "?a \<in> set h" "?b \<in> set h" "?c \<in> set h" using nth_mem k(2) by blast+
      have neq: "?a \<noteq> ?b" "?a \<noteq> ?c"
        using d lt k by (simp_all add: nth_eq_iff_index_eq)
      have e: "(?b, ?c) \<in> set (edges h)" using cyclic_edge [of k h] k lt by simp
      have as: "?a \<in> set s" using mem(1) sub by blast
      have "direction ?b ?c ?a \<noteq> 0"
      proof
        assume "direction ?b ?c ?a = 0"
        from sup(2) [OF e as this] neq
        have "key ?b < key ?a \<or> key ?c < key ?a" by auto
        moreover have "key ?a \<le> key ?b" "key ?a \<le> key ?c"
          using sorted_key_range(1) [OF large(2)] mem(2,3) sub h0 by auto
        ultimately show False by auto
      qed
      with sup(1) [OF e as] have "0 < direction ?b ?c ?a" by simp
      moreover have "direction ?b ?c ?a = direction ?a ?b ?c"
        by (simp add: direction_def algebra_simps)
      ultimately show "0 < direction ?a ?b ?c" by simp
    qed
  qed
  with large(5) show ?thesis by (simp add: h_def)
qed



subsection \<open>Collinear input\<close>

lemma chain_collinear:
  assumes t: "turns c" and z: "\<forall>a\<in>set c. \<forall>b\<in>set c. \<forall>d\<in>set c. direction a b d = 0"
  shows "length c \<le> 2"
proof (rule ccontr)
  assume "\<not> length c \<le> 2"
  then obtain a b d r where c: "c = a # b # d # r"
    by (cases c; cases "tl c"; cases "tl (tl c)") auto
  with t have "0 < direction a b d" by simp
  with z c show False by simp
qed

lemma convex_hull_collinear:
  assumes two: "2 \<le> card (set points)"
      and z: "\<forall>a\<in>set points. \<forall>b\<in>set points. \<forall>c\<in>set points. direction a b c = 0"
  shows "convex_hull points = [hd (sorted_points points), last (sorted_points points)]"
proof (cases points rule: convex_hull_cases)
  case small
  with two show ?thesis by simp
next
  case (large s)
  obtain m1 m2 where 1: "sweep s = hd s # m1 @ [last s]"
    and 2: "sweep (rev s) = last s # m2 @ [hd s]"
    and 3: "butlast (sweep s) @ butlast (sweep (rev s)) = hd s # m1 @ last s # m2"
    using hull_shape [OF large(2,3)] by blast
  have "length (sweep ps) \<le> 2" if "set ps = set s" for ps
  proof (rule chain_collinear [OF sweep_turns])
    show "\<forall>a\<in>set (sweep ps). \<forall>b\<in>set (sweep ps). \<forall>d\<in>set (sweep ps). direction a b d = 0"
      using z that large(4) sweep_set [of ps] by (auto simp: subset_iff)
  qed
  from this [of s] this [of "rev s"] 1 2 have "m1 = []" "m2 = []" by simp_all
  with 3 large show ?thesis by simp
qed



subsection \<open>Orientation\<close>

lemma sum_list_cyclic:
  fixes g :: "Point \<Rightarrow> int"
  shows "(\<Sum>(a, b)\<leftarrow>edges h. g a - g b) = 0" and "(\<Sum>(a, b)\<leftarrow>edges h. g b - g a) = 0"
proof -
  have r: "sum_list (map g (rotate1 h)) = sum_list (map g h)"
    by (cases h) simp_all
  have "(\<Sum>(a, b)\<leftarrow>zip xs ys. g a - g b) = sum_list (map g xs) - sum_list (map g ys)"
    if "length xs = length ys" for xs ys
    using that by (induction xs ys rule: list_induct2) simp_all
  from this [of h "rotate1 h"] r show "(\<Sum>(a, b)\<leftarrow>edges h. g a - g b) = 0"
    by (simp add: edges_def)
  have "(\<Sum>(a, b)\<leftarrow>zip xs ys. g b - g a) = sum_list (map g ys) - sum_list (map g xs)"
    if "length xs = length ys" for xs ys
    using that by (induction xs ys rule: list_induct2) simp_all
  from this [of h "rotate1 h"] r show "(\<Sum>(a, b)\<leftarrow>edges h. g b - g a) = 0"
    by (simp add: edges_def)
qed

lemma area2_fan: "area2 h = (\<Sum>(a, b)\<leftarrow>edges h. direction a b c)"
proof -
  have e: "direction a b c = (x a * y b - x b * y a) - ((y c * x a - y c * x b) + (x c * y b - x c * y a))"
    for a b
    by (simp add: direction_def algebra_simps)
  have "(\<Sum>(a, b)\<leftarrow>edges h. direction a b c)
      = (\<Sum>(a, b)\<leftarrow>edges h. (x a * y b - x b * y a) - ((y c * x a - y c * x b) + (x c * y b - x c * y a)))"
    by (simp only: e)
  also have "\<dots> = (\<Sum>(a, b)\<leftarrow>edges h. x a * y b - x b * y a)
      - ((\<Sum>(a, b)\<leftarrow>edges h. y c * x a - y c * x b) + (\<Sum>(a, b)\<leftarrow>edges h. x c * y b - x c * y a))"
    by (simp add: sum_list_addf sum_list_subtractf split_def)
  also have "(\<Sum>(a, b)\<leftarrow>edges h. y c * x a - y c * x b) = 0"
    using sum_list_cyclic(1) [of "\<lambda>a. y c * x a" h] by simp
  also have "(\<Sum>(a, b)\<leftarrow>edges h. x c * y b - x c * y a) = 0"
    using sum_list_cyclic(2) [of "\<lambda>a. x c * y a" h] by simp
  finally show ?thesis by (simp add: area2_def)
qed

lemma sum_list_pos:
  fixes xs :: "int list"
  assumes "\<forall>v\<in>set xs. 0 \<le> v" "u \<in> set xs" "0 < u"
  shows "0 < sum_list xs"
proof -
  from assms(2) obtain l r where xs: "xs = l @ u # r" by (meson split_list)
  with assms(1) have "0 \<le> sum_list l" "0 \<le> sum_list r"
    by (simp_all add: sum_list_nonneg)
  with xs assms(3) show ?thesis by simp
qed

lemma convex_hull_orientation:
  assumes two: "2 \<le> card (set points)"
  shows "hd (convex_hull points) \<in> set points"
    and "\<forall>q\<in>set points. key (hd (convex_hull points)) \<le> key q"
    and "\<forall>(a, b)\<in>set (edges (convex_hull points)). \<forall>q\<in>set points. 0 \<le> direction a b q"
    and "0 \<le> area2 (convex_hull points)"
    and "3 \<le> length (convex_hull points) \<Longrightarrow> 0 < area2 (convex_hull points)"
proof -
  let ?h = "convex_hull points"
  from two obtain s where s: "sorted_wrt (before True) s" and len: "2 \<le> length s"
    and set: "set s = set points"
    and hs: "?h = butlast (sweep s) @ butlast (sweep (rev s))"
    by (cases points rule: convex_hull_cases) auto
  obtain m1 m2 where 3: "butlast (sweep s) @ butlast (sweep (rev s)) = hd s # m1 @ last s # m2"
    using hull_shape [OF s len] by blast
  from len have ne: "s \<noteq> []" by auto
  from hs 3 have hd: "hd ?h = hd s" by simp
  with ne set show mem: "hd ?h \<in> set points" using hd_in_set [of s] by simp
  show "\<forall>q\<in>set points. key (hd ?h) \<le> key q"
    using sorted_key_range(1) [OF s] hd set by simp
  show sup: "\<forall>(a, b)\<in>set (edges ?h). \<forall>q\<in>set points. 0 \<le> direction a b q"
    using hull_support(1) [OF s len, folded hs] set by auto
  have fan: "area2 ?h = (\<Sum>(a, b)\<leftarrow>edges ?h. direction a b (hd ?h))"
    by (rule area2_fan)
  have nonneg: "\<forall>v\<in>set (map (\<lambda>(a, b). direction a b (hd ?h)) (edges ?h)). 0 \<le> v"
    using sup mem by auto
  then show "0 \<le> area2 ?h" unfolding fan by (intro sum_list_nonneg) blast
  show "0 < area2 ?h" if n3: "3 \<le> length ?h"
  proof -
    have t: "0 < direction (?h ! ((1 + length ?h - 1) mod length ?h)) (?h ! 1)
               (?h ! ((1 + 1) mod length ?h))"
      using convex_hull_turn [OF refl refl n3, of 1] n3 by simp
    from n3 have i: "(1 + length ?h - 1) mod length ?h = 0" "(1 + 1) mod length ?h = 2" by simp_all
    have "(?h ! 1, ?h ! (Suc 1 mod length ?h)) \<in> set (edges ?h)"
      using cyclic_edge [of 1 ?h] n3 by simp
    moreover from n3 have "Suc 1 mod length ?h = 2" by simp
    ultimately have e: "(?h ! 1, ?h ! 2) \<in> set (edges ?h)" by simp
    from n3 have "?h \<noteq> []" by auto
    then have h0: "?h ! 0 = hd ?h" by (simp add: hd_conv_nth)
    have "direction (?h ! 1) (?h ! 2) (hd ?h) = direction (?h ! 0) (?h ! 1) (?h ! 2)"
      unfolding h0 by (simp add: direction_def algebra_simps)
    with t i have "0 < direction (?h ! 1) (?h ! 2) (hd ?h)" by simp
    moreover have "direction (?h ! 1) (?h ! 2) (hd ?h)
        \<in> set (map (\<lambda>(a, b). direction a b (hd ?h)) (edges ?h))"
      using e by force
    ultimately show ?thesis unfolding fan using nonneg sum_list_pos by blast
  qed
qed



subsection \<open>Running the builder on its own output\<close>

lemma sorted_unique_gen:
  assumes "sorted_wrt (before asc) s1" "sorted_wrt (before asc) s2" "set s1 = set s2"
  shows "s1 = s2"
proof (cases asc)
  case True
  with assms show ?thesis using sorted_unique by simp
next
  case False
  with assms have "sorted_wrt (before True) (rev s1)" "sorted_wrt (before True) (rev s2)"
    using sorted_rev [of False] by simp_all
  moreover from assms(3) have "set (rev s1) = set (rev s2)" by simp
  ultimately have "rev s1 = rev s2" by (rule sorted_unique)
  then show ?thesis by simp
qed

lemma direction_swap23: "direction a c b = - direction a b c"
  by (simp add: direction_def algebra_simps)

lemma direction_swap13: "direction c b a = - direction a b c"
  by (simp add: direction_def algebra_simps)

lemma sweep_idem:
  assumes s: "sorted_wrt (before asc) ps" and s': "sorted_wrt (before asc) ps'"
      and e: "set ps' = set (sweep ps) \<union> set (sweep (rev ps))"
  shows "sweep ps' = sweep ps"
proof (cases "ps = []")
  case True
  with e show ?thesis by simp
next
  case False
  let ?lo = "hd ps" and ?hi = "last ps"
  have sub: "set ps' \<subseteq> set ps" using e sweep_set [of ps] sweep_set [of "rev ps"] by auto
  have ends: "?lo \<in> set (sweep ps)" "?hi \<in> set (sweep ps)"
    using False sweep_nonempty [of ps] sweep_hd [of ps] sweep_last [of ps]
      hd_in_set [of "sweep ps"] last_in_set [of "sweep ps"] by simp_all
  with e have ends': "?lo \<in> set ps'" "?hi \<in> set ps'" by simp_all
  have "set (sweep ps') = set (sweep ps)"
  proof (intro equalityI subsetI)
    fix v assume v: "v \<in> set (sweep ps')"
    then have vp: "v \<in> set ps'" using sweep_set by blast
    show "v \<in> set (sweep ps)"
    proof (rule ccontr)
      assume n: "v \<notin> set (sweep ps)"
      with vp e have u: "v \<in> set (sweep (rev ps))" by simp
      from n ends have "v \<noteq> ?lo" "v \<noteq> ?hi" by auto
      with vp sub s have lo: "before asc ?lo v" and hi: "before asc v ?hi"
        using sorted_hd_first [OF s, of v] sorted_last_final [OF s, of v] by auto
      have 1: "0 < direction ?lo v ?hi"
        using sweep_vertex_strict [OF s' v ends' lo hi] .
      have "0 < direction ?hi v ?lo"
        using sweep_vertex_strict [OF sorted_rev [OF s] u, of ?hi ?lo] False lo hi
        by (simp add: before_def)
      with 1 show False by (simp add: direction_swap13 [of ?hi v ?lo])
    qed
  next
    fix v assume v: "v \<in> set (sweep ps)"
    with e have vp: "v \<in> set ps'" by simp
    show "v \<in> set (sweep ps')"
    proof (rule ccontr)
      assume n: "v \<notin> set (sweep ps')"
      with sweep_covered [OF s' vp] obtain a b where ab: "(a, b) \<in> set (edges_of (sweep ps'))"
        and av: "before asc a v" and vb: "before asc v b" and d: "0 \<le> direction a b v"
        unfolding covered_def by auto
      from ab have "a \<in> set (sweep ps')" "b \<in> set (sweep ps')" using edges_of_set by blast+
      with sub have "a \<in> set ps" "b \<in> set ps" using sweep_set [of ps'] by auto
      from sweep_vertex_strict [OF s v this av vb] d show False
        by (simp add: direction_swap23 [of a v b])
    qed
  qed
  with sweep_sorted [OF s'] sweep_sorted [OF s] show ?thesis by (rule sorted_unique_gen)
qed

lemma convex_hull_idem: "convex_hull (convex_hull points) = convex_hull points"
proof (cases points rule: convex_hull_cases)
  case small
  have "card (set (remdups points)) \<le> 1" using small(1) by simp
  then have "convex_hull (remdups points) = remdups (remdups points)"
    by (rule convex_hull_small)
  with small(2) show ?thesis by simp
next
  case (large s)
  let ?h = "butlast (sweep s) @ butlast (sweep (rev s))"
  have hset: "set ?h = set (sweep s) \<union> set (sweep (rev s))"
    using hull_set [OF large(2,3)] .
  obtain m1 m2 where 3: "?h = hd s # m1 @ last s # m2"
    using hull_shape [OF large(2,3)] by blast
  have "distinct ?h" using hull_distinct [OF large(2,3)] .
  then have "card (set ?h) = length ?h" by (rule distinct_card)
  with 3 have two: "2 \<le> card (set ?h)" by simp
  let ?s' = "sorted_points ?h"
  have s': "sorted_wrt (before True) ?s'" by (rule sorted_sorted_points)
  have e: "convex_hull ?h = butlast (sweep ?s') @ butlast (sweep (rev ?s'))"
    using two by (rule convex_hull_large)
  have 1: "sweep ?s' = sweep s"
    using large(2) s' by (rule sweep_idem) (simp only: set_sorted_points hset)
  have 2: "sweep (rev ?s') = sweep (rev s)"
    using sorted_rev [OF large(2)] sorted_rev [OF s']
    by (rule sweep_idem) (simp only: set_rev rev_rev_ident set_sorted_points hset Un_commute)
  from e 1 2 large(5) show ?thesis by simp
qed


subsection \<open>Equality and order of points\<close>

text \<open>
  C9 as stated fails on the class: two \<^verbatim>\<open>Point\<close> objects with the same coordinates are
  different objects, \<^verbatim>\<open>==\<close> on them is false, and \<^verbatim>\<open><\<close> raises \<^verbatim>\<open>TypeError\<close>.
  The heap below holds \<^verbatim>\<open>Point(1, 2)\<close> at the addresses 0 and 1.
\<close>

theorem Point_eq_counterexample:
  "x (the ([0 \<mapsto> \<lparr>x = 1, y = 2\<rparr>, 1 \<mapsto> \<lparr>x = 1, y = 2\<rparr>] (0::ref)))
     = x (the ([0 \<mapsto> \<lparr>x = 1, y = 2\<rparr>, 1 \<mapsto> \<lparr>x = 1, y = 2\<rparr>] (1::ref)))
   \<and> y (the ([0 \<mapsto> \<lparr>x = 1, y = 2\<rparr>, 1 \<mapsto> \<lparr>x = 1, y = 2\<rparr>] (0::ref)))
     = y (the ([0 \<mapsto> \<lparr>x = 1, y = 2\<rparr>, 1 \<mapsto> \<lparr>x = 1, y = 2\<rparr>] (1::ref)))
   \<and> \<not> Point_eq [0 \<mapsto> \<lparr>x = 1, y = 2\<rparr>, 1 \<mapsto> \<lparr>x = 1, y = 2\<rparr>] 0 1
   \<and> Point_lt [0 \<mapsto> \<lparr>x = 1, y = 2\<rparr>, 1 \<mapsto> \<lparr>x = 1, y = 2\<rparr>] 0 1 = Inl TypeError"
  by (simp add: Point_eq_def Point_lt_def)

text \<open>
  C9, amended: \<^verbatim>\<open>Point\<close> objects are equal only to themselves and are not ordered; the
  hull builder compares the pairs \<open>(p.x, p.y)\<close> instead. Two points have the same pair
  exactly when both coordinates agree, pairs are ordered lexicographically, and the list
  the builder sorts in line 35 is strictly ascending in that order and holds each input
  pair exactly once.
\<close>

theorem point_key_equality_order:
  "(key p = key q \<longleftrightarrow> x p = x q \<and> y p = y q)
   \<and> (key p < key q \<longleftrightarrow> x p < x q \<or> (x p = x q \<and> y p < y q))
   \<and> sorted_wrt (\<lambda>a b. key a < key b) (sorted_points points)
   \<and> distinct (map key (sorted_points points))
   \<and> set (map key (sorted_points points)) = set (map key points)
   \<and> Point_eq h r r' = (r = r')
   \<and> Point_lt h r r' = Inl TypeError"
proof -
  have 1: "key p = key q \<longleftrightarrow> x p = x q \<and> y p = y q" by (simp add: key_def)
  have 2: "key p < key q \<longleftrightarrow> x p < x q \<or> (x p = x q \<and> y p < y q)"
    by (auto simp: key_def)
  have 3: "sorted_wrt (\<lambda>a b. key a < key b) (sorted_points points)"
    using sorted_sorted_points [of points] by (simp add: before_True)
  have 4: "distinct (map key (sorted_points points))"
    using sorted_distinct [OF sorted_sorted_points, of points]
    by (simp add: distinct_map inj_on_subset [OF inj_key])
  have 5: "set (map key (sorted_points points)) = set (map key points)" by simp
  have 6: "Point_eq h r r' = (r = r')" "Point_lt h r r' = Inl TypeError"
    by (simp_all add: Point_eq_def Point_lt_def)
  from 1 2 3 4 5 6 show ?thesis by blast
qed

end
